theory Spec2Isabelle
  imports Complex_Main "HOL-Library.Log_Nat" "HOL-Library.Word"
begin

section \<open>Python numbers\<close>

text \<open>
  The script \<^verbatim>\<open>splice_deed.py\<close> computes with Python integers (unbounded, modelled as
  \<^typ>\<open>int\<close>) and Python floats (IEEE 754 binary64).  A finite float is modelled as the
  real number it denotes, and every float operation rounds the exact result to the nearest
  binary64 value, ties to even, with gradual underflow: \<open>fl\<close>.  The exponent range is not
  bounded above, so \<open>fl\<close> agrees with the hardware as long as the magnitude stays below
  \<open>2 ^ 1024\<close>; infinities and NaN are not modelled.  All values of the script are products and
  quotients of image dimensions (which the image library keeps in C integers) and of
  fractions in \<open>(0, 1)\<close>, far below that threshold.
\<close>

definition round_half_even :: "real \<Rightarrow> int" where
  "round_half_even x =
     (let f = \<lfloor>x\<rfloor>; r = x - of_int f
      in if r < 1 / 2 then f else if 1 / 2 < r then f + 1 else if even f then f else f + 1)"

text \<open>\<open>ilog2 x\<close> is \<open>\<lfloor>log\<^sub>2 x\<rfloor>\<close> for positive \<open>x\<close>, computed on integers.\<close>

definition ilog2 :: "real \<Rightarrow> int" where
  "ilog2 x = (if 1 \<le> x then bitlen \<lfloor>x\<rfloor> - 1 else - bitlen (\<lceil>1 / x\<rceil> - 1))"

text \<open>The exponent of the unit in the last place: 53 significant bits, smallest exponent \<open>-1074\<close>.\<close>

definition fexp :: "real \<Rightarrow> int" where
  "fexp x = max (ilog2 \<bar>x\<bar> - 52) (- 1074)"

definition fl :: "real \<Rightarrow> real" where
  "fl x = (if x = 0 then 0 else of_int (round_half_even (x / 2 powi fexp x)) * 2 powi fexp x)"

text \<open>\<^verbatim>\<open>float(n)\<close> and the implicit conversion of an integer operand, \<^verbatim>\<open>x * y\<close> on floats.\<close>

definition float_of_int :: "int \<Rightarrow> real" where
  "float_of_int n = fl (of_int n)"

definition float_mul :: "real \<Rightarrow> real \<Rightarrow> real" where
  "float_mul x y = fl (x * y)"

datatype pyerror = ValueError | ZeroDivisionError

text \<open>\<^verbatim>\<open>x / y\<close> on floats raises on a zero divisor.\<close>

definition float_div :: "real \<Rightarrow> real \<Rightarrow> pyerror + real" where
  "float_div x y = (if y = 0 then Inl ZeroDivisionError else Inr (fl (x / y)))"

text \<open>\<^verbatim>\<open>int(x)\<close> truncates towards zero.\<close>

definition py_int :: "real \<Rightarrow> int" where
  "py_int x = (if 0 \<le> x then \<lfloor>x\<rfloor> else \<lceil>x\<rceil>)"

definition bind_err :: "pyerror + 'a \<Rightarrow> ('a \<Rightarrow> pyerror + 'b) \<Rightarrow> pyerror + 'b" where
  "bind_err m f = (case m of Inl e \<Rightarrow> Inl e | Inr v \<Rightarrow> f v)"

text \<open>The float literals \<^verbatim>\<open>0.08\<close>, \<^verbatim>\<open>0.92\<close>, \<^verbatim>\<open>0.95\<close> and \<^verbatim>\<open>1.35\<close>.\<close>

definition lit_0_08 :: real where "lit_0_08 = fl (8 / 100)"
definition lit_0_92 :: real where "lit_0_92 = fl (92 / 100)"
definition lit_0_95 :: real where "lit_0_95 = fl (95 / 100)"
definition lit_1_35 :: real where "lit_1_35 = fl (135 / 100)"

text \<open>\<^verbatim>\<open>range(start, stop, step)\<close> as the list it iterates over.\<close>

definition py_range :: "int \<Rightarrow> int \<Rightarrow> int \<Rightarrow> pyerror + int list" where
  "py_range start stop step =
     (if step = 0 then Inl ValueError
      else if 0 < step
        then Inr (map (\<lambda>k. start + int k * step) [0..<nat ((stop - start + step - 1) div step)])
        else Inr (map (\<lambda>k. start + int k * step) [0..<nat ((start - stop - step - 1) div (- step))]))"

section \<open>Images\<close>

text \<open>
  An image is its size and its samples.  The operations of the image library that the script
  calls are modelled on this record: \<^verbatim>\<open>convert\<close> maps the samples, \<^verbatim>\<open>crop\<close> cuts a box
  (samples outside the source are filled; a box with \<^verbatim>\<open>right < left\<close> or
  \<^verbatim>\<open>lower < upper\<close> is rejected with \<^verbatim>\<open>ValueError\<close>), \<^verbatim>\<open>resize\<close> rejects a size that is
  not positive, \<^verbatim>\<open>histogram\<close> counts the samples of an 8-bit image by value.  What the
  library computes for the samples of a converted or resampled image is a parameter
  (\<open>'p pil\<close>): the colour of a sample (\<open>rgb_of\<close>), its luminance (\<open>luma\<close>) and the bilinear
  filter (\<open>bilinear\<close>).
\<close>

record 'p raster =
  width :: int
  height :: int
  pixel :: "int \<Rightarrow> int \<Rightarrow> 'p"

type_synonym rgb = "8 word \<times> 8 word \<times> 8 word"

record 'p pil =
  rgb_of :: "'p \<Rightarrow> rgb"
  luma :: "rgb \<Rightarrow> 8 word"
  bilinear :: "rgb raster \<Rightarrow> int \<Rightarrow> int \<Rightarrow> int \<Rightarrow> int \<Rightarrow> rgb"

definition convert :: "('p \<Rightarrow> 'q) \<Rightarrow> 'p raster \<Rightarrow> 'q raster" where
  "convert f img = \<lparr>width = width img, height = height img, pixel = (\<lambda>x y. f (pixel img x y))\<rparr>"

definition resize ::
    "('p raster \<Rightarrow> int \<Rightarrow> int \<Rightarrow> int \<Rightarrow> int \<Rightarrow> 'p) \<Rightarrow> 'p raster \<Rightarrow> int \<Rightarrow> int \<Rightarrow> pyerror + 'p raster" where
  "resize resample img new_w new_h =
     (if new_w \<le> 0 \<or> new_h \<le> 0 then Inl ValueError
      else Inr \<lparr>width = new_w, height = new_h, pixel = resample img new_w new_h\<rparr>)"

definition crop :: "'p \<Rightarrow> 'p raster \<Rightarrow> int \<Rightarrow> int \<Rightarrow> int \<Rightarrow> int \<Rightarrow> pyerror + 'p raster" where
  "crop fill img x0 y0 x1 y1 =
     (if x1 < x0 \<or> y1 < y0 then Inl ValueError
      else Inr \<lparr>width = x1 - x0, height = y1 - y0,
                pixel = (\<lambda>i j. if 0 \<le> x0 + i \<and> x0 + i < width img \<and> 0 \<le> y0 + j \<and> y0 + j < height img
                               then pixel img (x0 + i) (y0 + j) else fill)\<rparr>)"

definition pixels :: "'p raster \<Rightarrow> 'p list" where
  "pixels img = concat (map (\<lambda>y. map (\<lambda>x. pixel img x y) [0..width img - 1]) [0..height img - 1])"

definition histogram :: "8 word raster \<Rightarrow> nat list" where
  "histogram g = map (\<lambda>i. length (filter (\<lambda>p. unat p = i) (pixels g))) [0..<256]"

section \<open>The script\<close>

text \<open>\<^verbatim>\<open>is_probably_double_page\<close>; the divisor \<^verbatim>\<open>max(h, 1)\<close> is never zero.\<close>

definition is_probably_double_page :: "int \<Rightarrow> int \<Rightarrow> bool" where
  "is_probably_double_page w h = (lit_1_35 \<le> fl (of_int w / of_int (max h 1)))"

definition downsample_for_analysis ::
    "('p raster \<Rightarrow> int \<Rightarrow> int \<Rightarrow> int \<Rightarrow> int \<Rightarrow> 'p) \<Rightarrow> 'p raster \<Rightarrow> int \<Rightarrow> pyerror + ('p raster \<times> real)" where
  "downsample_for_analysis resample img max_dim =
     (let w = width img; h = height img
      in bind_err (float_div (float_of_int (max w h)) (float_of_int max_dim)) (\<lambda>scale.
           if scale \<le> 1 then Inr (img, 1)
           else bind_err (float_div (float_of_int w) scale) (\<lambda>qw.
                bind_err (float_div (float_of_int h) scale) (\<lambda>qh.
                  let new_w = max 1 (py_int qw); new_h = max 1 (py_int qh)
                  in bind_err (resize resample img new_w new_h) (\<lambda>small. Inr (small, scale))))))"

text \<open>\<^verbatim>\<open>sum((255 - i) * c for i, c in enumerate(hist))\<close>\<close>

definition ink :: "nat list \<Rightarrow> int" where
  "ink hist = sum_list (map (\<lambda>(i, c). (255 - int i) * int c) (enumerate 0 hist))"

definition gutter_score_vertical :: "8 word raster \<Rightarrow> int \<Rightarrow> int \<Rightarrow> int \<Rightarrow> int \<Rightarrow> pyerror + int" where
  "gutter_score_vertical gray x_center band_px y0 y1 =
     (let w = width gray; h = height gray;
          x0 = max 0 (x_center - band_px div 2);
          x1 = min w (x0 + band_px)
      in if x1 \<le> x0 then Inr (10 ^ 18)
         else bind_err (crop 0 gray x0 y0 x1 y1) (\<lambda>band. Inr (ink (histogram band))))"

definition gutter_score_horizontal :: "8 word raster \<Rightarrow> int \<Rightarrow> int \<Rightarrow> int \<Rightarrow> int \<Rightarrow> pyerror + int" where
  "gutter_score_horizontal gray y_center band_px x0 x1 =
     (let w = width gray; h = height gray;
          y0 = max 0 (y_center - band_px div 2);
          y1 = min h (y0 + band_px)
      in if y1 \<le> y0 then Inr (10 ^ 18)
         else bind_err (crop 0 gray x0 y0 x1 y1) (\<lambda>band. Inr (ink (histogram band))))"

text \<open>
  The \<^verbatim>\<open>for\<close> loop of the two locators: the state is \<^verbatim>\<open>(best_x, best_score)\<close>, with
  \<open>None\<close> for Python's \<^verbatim>\<open>None\<close>.
\<close>

fun search_loop ::
    "(int \<Rightarrow> pyerror + int) \<Rightarrow> int list \<Rightarrow> int \<times> int option \<Rightarrow> pyerror + (int \<times> int option)" where
  "search_loop score [] st = Inr st"
| "search_loop score (x # xs) (best_x, best_score) =
     bind_err (score x) (\<lambda>s.
       search_loop score xs
         (if best_score = None \<or> s < the best_score then (x, Some s) else (best_x, best_score)))"

definition find_split_vertical :: "'p pil \<Rightarrow> 'p raster \<Rightarrow> real \<Rightarrow> real \<Rightarrow> pyerror + int" where
  "find_split_vertical lib img search band =
     bind_err (downsample_for_analysis (bilinear lib) (convert (rgb_of lib) img) 900) (\<lambda>(small, scale).
       let gray = convert (luma lib) small;
           w = width gray; h = height gray;
           y0 = py_int (float_mul (float_of_int h) lit_0_08);
           y1 = py_int (float_mul (float_of_int h) lit_0_92);
           mid = w div 2;
           half_window = py_int (fl (float_mul (float_of_int w) search / 2));
           start = max 1 (mid - half_window);
           stop = min (w - 2) (mid + half_window);
           band_px = max 2 (py_int (float_mul (float_of_int w) band));
           step = max 1 (py_int (fl (of_int w / 500)))
       in bind_err (py_range start (stop + 1) step) (\<lambda>xs.
          bind_err (search_loop (\<lambda>x. gutter_score_vertical gray x band_px y0 y1) xs (mid, None))
            (\<lambda>(best_x, best_score).
          bind_err (gutter_score_vertical gray mid band_px y0 y1) (\<lambda>center_score.
            let best_x = (if best_score = None
                               \<or> float_mul (float_of_int center_score) lit_0_95 < of_int (the best_score)
                          then mid else best_x)
            in Inr (py_int (float_mul (float_of_int best_x) scale))))))"

definition find_split_horizontal :: "'p pil \<Rightarrow> 'p raster \<Rightarrow> real \<Rightarrow> real \<Rightarrow> pyerror + int" where
  "find_split_horizontal lib img search band =
     bind_err (downsample_for_analysis (bilinear lib) (convert (rgb_of lib) img) 900) (\<lambda>(small, scale).
       let gray = convert (luma lib) small;
           w = width gray; h = height gray;
           x0 = py_int (float_mul (float_of_int w) lit_0_08);
           x1 = py_int (float_mul (float_of_int w) lit_0_92);
           mid = h div 2;
           half_window = py_int (fl (float_mul (float_of_int h) search / 2));
           start = max 1 (mid - half_window);
           stop = min (h - 2) (mid + half_window);
           band_px = max 2 (py_int (float_mul (float_of_int h) band));
           step = max 1 (py_int (fl (of_int h / 500)))
       in bind_err (py_range start (stop + 1) step) (\<lambda>ys.
          bind_err (search_loop (\<lambda>y. gutter_score_horizontal gray y band_px x0 x1) ys (mid, None))
            (\<lambda>(best_y, best_score).
          bind_err (gutter_score_horizontal gray mid band_px x0 x1) (\<lambda>center_score.
            let best_y = (if best_score = None
                               \<or> float_mul (float_of_int center_score) lit_0_95 < of_int (the best_score)
                          then mid else best_y)
            in Inr (py_int (float_mul (float_of_int best_y) scale))))))"

text \<open>
  \<^verbatim>\<open>main\<close>, the choice of the split direction for one image: \<open>None\<close> is the
  \<^verbatim>\<open>skipped_single\<close> branch, which leaves the image alone.
\<close>

datatype mode = Auto | Vertical | Horizontal

definition select_mode :: "mode \<Rightarrow> int \<Rightarrow> int \<Rightarrow> mode option" where
  "select_mode m w h =
     (if m = Auto then
        (if is_probably_double_page w h then Some Vertical
         else if lit_1_35 \<le> fl (of_int h / of_int (max w 1)) then Some Horizontal
         else None)
      else Some m)"

text \<open>
  \<^verbatim>\<open>main\<close>, the two branches that cut the image at the seam the locator returned
  (\<^verbatim>\<open>split_x\<close>, \<^verbatim>\<open>split_y\<close>).
\<close>

definition split_vertical :: "'p \<Rightarrow> 'p raster \<Rightarrow> int \<Rightarrow> pyerror + ('p raster \<times> 'p raster)" where
  "split_vertical fill im split_x =
     (let w = width im; h = height im;
          split_x = max 1 (min (w - 1) split_x)
      in bind_err (crop fill im 0 0 split_x h) (\<lambda>left.
         bind_err (crop fill im split_x 0 w h) (\<lambda>right. Inr (left, right))))"

definition split_horizontal :: "'p \<Rightarrow> 'p raster \<Rightarrow> int \<Rightarrow> pyerror + ('p raster \<times> 'p raster)" where
  "split_horizontal fill im split_y =
     (let w = width im; h = height im;
          split_y = max 1 (min (h - 1) split_y)
      in bind_err (crop fill im 0 0 w split_y) (\<lambda>top.
         bind_err (crop fill im 0 split_y w h) (\<lambda>bottom. Inr (top, bottom))))"

section \<open>The parts of the locators\<close>

text \<open>
  Names for the quantities that \<^verbatim>\<open>find_split_vertical\<close> and \<^verbatim>\<open>find_split_horizontal\<close>
  compute along the way, for a search axis of length \<open>d\<close> and a perpendicular axis of length
  \<open>p\<close>.  The lemmas \<open>find_split_vertical_parts\<close> and \<open>find_split_horizontal_parts\<close> below
  show that the two functions are composed of exactly these.
\<close>

definition analysis :: "'p pil \<Rightarrow> 'p raster \<Rightarrow> pyerror + (8 word raster \<times> real)" where
  "analysis lib img =
     bind_err (downsample_for_analysis (bilinear lib) (convert (rgb_of lib) img) 900)
       (\<lambda>(small, scale). Inr (convert (luma lib) small, scale))"

definition margin_lo :: "int \<Rightarrow> int" where
  "margin_lo p = py_int (float_mul (float_of_int p) lit_0_08)"

definition margin_hi :: "int \<Rightarrow> int" where
  "margin_hi p = py_int (float_mul (float_of_int p) lit_0_92)"

definition half_window :: "int \<Rightarrow> real \<Rightarrow> int" where
  "half_window d search = py_int (fl (float_mul (float_of_int d) search / 2))"

definition search_start :: "int \<Rightarrow> real \<Rightarrow> int" where
  "search_start d search = max 1 (d div 2 - half_window d search)"

definition search_stop :: "int \<Rightarrow> real \<Rightarrow> int" where
  "search_stop d search = min (d - 2) (d div 2 + half_window d search)"

definition band_px_of :: "int \<Rightarrow> real \<Rightarrow> int" where
  "band_px_of d band = max 2 (py_int (float_mul (float_of_int d) band))"

definition stride :: "int \<Rightarrow> int" where
  "stride d = max 1 (py_int (fl (of_int d / 500)))"

definition candidates :: "int \<Rightarrow> real \<Rightarrow> int list" where
  "candidates d search =
     (case py_range (search_start d search) (search_stop d search + 1) (stride d) of
        Inl e \<Rightarrow> [] | Inr xs \<Rightarrow> xs)"

text \<open>The score of a position as a number (\<open>0\<close> where the scorer raises).\<close>

definition score_value :: "pyerror + int \<Rightarrow> int" where
  "score_value r = (case r of Inl e \<Rightarrow> 0 | Inr s \<Rightarrow> s)"

definition vscore :: "8 word raster \<Rightarrow> real \<Rightarrow> int \<Rightarrow> int" where
  "vscore gray band x =
     score_value (gutter_score_vertical gray x (band_px_of (width gray) band)
       (margin_lo (height gray)) (margin_hi (height gray)))"

definition hscore :: "8 word raster \<Rightarrow> real \<Rightarrow> int \<Rightarrow> int" where
  "hscore gray band y =
     score_value (gutter_score_horizontal gray y (band_px_of (height gray) band)
       (margin_lo (width gray)) (margin_hi (width gray)))"

text \<open>The loop followed by the comparison with the score of the midline: the chosen position.\<close>

definition pick_best :: "(int \<Rightarrow> pyerror + int) \<Rightarrow> int \<Rightarrow> int list \<Rightarrow> pyerror + int" where
  "pick_best score mid xs =
     bind_err (search_loop score xs (mid, None)) (\<lambda>(best_x, best_score).
     bind_err (score mid) (\<lambda>center_score.
       Inr (if best_score = None
               \<or> float_mul (float_of_int center_score) lit_0_95 < of_int (the best_score)
            then mid else best_x)))"

definition chosen_vertical :: "8 word raster \<Rightarrow> real \<Rightarrow> real \<Rightarrow> pyerror + int" where
  "chosen_vertical gray search band =
     pick_best (\<lambda>x. gutter_score_vertical gray x (band_px_of (width gray) band)
                   (margin_lo (height gray)) (margin_hi (height gray)))
       (width gray div 2) (candidates (width gray) search)"

definition chosen_horizontal :: "8 word raster \<Rightarrow> real \<Rightarrow> real \<Rightarrow> pyerror + int" where
  "chosen_horizontal gray search band =
     pick_best (\<lambda>y. gutter_score_horizontal gray y (band_px_of (height gray) band)
                   (margin_lo (width gray)) (margin_hi (width gray)))
       (height gray div 2) (candidates (height gray) search)"

text \<open>The box of a scoring band along the search axis, after clamping.\<close>

definition band_lo :: "int \<Rightarrow> int \<Rightarrow> int" where
  "band_lo center band_px = max 0 (center - band_px div 2)"

definition band_hi :: "int \<Rightarrow> int \<Rightarrow> int \<Rightarrow> int" where
  "band_hi d center band_px = min d (band_lo center band_px + band_px)"

text \<open>Total darkness of a list of samples.\<close>

definition darkness :: "8 word list \<Rightarrow> int" where
  "darkness ps = sum_list (map (\<lambda>p. 255 - int (unat p)) ps)"

section \<open>Inputs\<close>

text \<open>
  The inputs the theorems below speak about: an image has positive dimensions that fit the
  C integers in which the image library keeps them, and the search and band fractions lie
  strictly between \<open>0\<close> and \<open>1\<close>.  On these inputs no float of the script is anywhere near
  the overflow threshold.
\<close>

definition valid_image :: "'p raster \<Rightarrow> bool" where
  "valid_image img \<longleftrightarrow> 0 < width img \<and> width img < 2 ^ 31 \<and> 0 < height img \<and> height img < 2 ^ 31"

definition fraction :: "real \<Rightarrow> bool" where
  "fraction x \<longleftrightarrow> 0 < x \<and> x < 1"

section \<open>Defaults and concrete images\<close>

text \<open>The defaults of \<^verbatim>\<open>--search\<close> and \<^verbatim>\<open>--band\<close>: the float literals \<^verbatim>\<open>0.12\<close> and \<^verbatim>\<open>0.01\<close>.\<close>

definition default_search :: real where "default_search = fl (12 / 100)"
definition default_band :: real where "default_band = fl (1 / 100)"

text \<open>
  A uniformly coloured image, and an instance of the library parameters for 8-bit grey
  images: the colour of a grey sample \<open>v\<close> is \<open>(v, v, v)\<close>, whose luminance is \<open>v\<close>, and
  resampling is by the sample at the origin (on a uniformly coloured image every resampling
  filter returns that colour).
\<close>

definition solid :: "int \<Rightarrow> int \<Rightarrow> 'p \<Rightarrow> 'p raster" where
  "solid w h v = \<lparr>width = w, height = h, pixel = (\<lambda>x y. v)\<rparr>"

definition grey_lib :: "8 word pil" where
  "grey_lib = \<lparr>rgb_of = (\<lambda>v. (v, v, v)), luma = (\<lambda>(r, g, b). g),
               bilinear = (\<lambda>img new_w new_h x y. pixel img 0 0)\<rparr>"

section \<open>Rounding to binary64\<close>

lemma rhe_cases:
  "round_half_even x = \<lfloor>x\<rfloor> \<and> x - of_int \<lfloor>x\<rfloor> \<le> 1 / 2 \<or>
   round_half_even x = \<lfloor>x\<rfloor> + 1 \<and> 1 / 2 \<le> x - of_int \<lfloor>x\<rfloor>"
  by (auto simp: round_half_even_def Let_def)

lemma rhe_upper: "of_int (round_half_even x) \<le> x + 1 / 2"
  using rhe_cases [of x] by (auto; linarith)

lemma rhe_lower: "x - 1 / 2 \<le> of_int (round_half_even x)"
  using rhe_cases [of x] by (auto; linarith)

lemma rhe_of_int [simp]: "round_half_even (of_int n) = n"
  by (simp add: round_half_even_def)

lemma rhe_mono: "x \<le> y \<Longrightarrow> round_half_even x \<le> round_half_even y"
proof -
  assume xy: "x \<le> y"
  have fm: "\<lfloor>x\<rfloor> \<le> \<lfloor>y\<rfloor>" using xy by (rule floor_mono)
  show ?thesis
  proof (cases "\<lfloor>x\<rfloor> = \<lfloor>y\<rfloor>")
    case True
    then show ?thesis using xy by (auto simp: round_half_even_def Let_def)
  next
    case False
    then have "\<lfloor>x\<rfloor> + 1 \<le> \<lfloor>y\<rfloor>" using fm by simp
    moreover have "round_half_even x \<le> \<lfloor>x\<rfloor> + 1" using rhe_cases [of x] by auto
    moreover have "\<lfloor>y\<rfloor> \<le> round_half_even y" using rhe_cases [of y] by auto
    ultimately show ?thesis by linarith
  qed
qed

lemma rhe_minus: "round_half_even (- x) = - round_half_even x"
proof (cases "x \<in> \<int>")
  case True
  then obtain n where "x = of_int n" by (auto elim: Ints_cases)
  then show ?thesis by (simp flip: of_int_minus)
next
  case False
  have ne: "x \<noteq> of_int \<lfloor>x\<rfloor>"
  proof
    assume "x = of_int \<lfloor>x\<rfloor>"
    then have "x \<in> \<int>" by (metis Ints_of_int)
    with False show False by simp
  qed
  then have nz: "x - of_int \<lfloor>x\<rfloor> \<noteq> 0" by simp
  have c: "\<lfloor>- x\<rfloor> = - \<lfloor>x\<rfloor> - 1"
    using ne by (simp add: ceiling_altdef floor_minus)
  show ?thesis
    using nz unfolding round_half_even_def Let_def c
    by (auto simp: algebra_simps)
qed

lemma two_powi_pos [simp]: "0 < (2::real) powi k"
  by (simp add: power_int_def)

lemma two_powi_mono: "a \<le> b \<Longrightarrow> (2::real) powi a \<le> 2 powi b"
  by (rule power_int_increasing) simp_all

lemma two_powi_strict_mono: "a < b \<Longrightarrow> (2::real) powi a < 2 powi b"
  by (rule power_int_strict_increasing) simp_all

lemma two_powi_Suc: "(2::real) powi (k + 1) = 2 * 2 powi k"
  by (simp add: power_int_add)

lemma ilog2_bounds:
  assumes "0 < x"
  shows "2 powi ilog2 x \<le> x" and "x < 2 powi (ilog2 x + 1)"
proof -
  have "2 powi ilog2 x \<le> x \<and> x < 2 powi (ilog2 x + 1)"
  proof (cases "1 \<le> x")
    case True
    define n where "n = \<lfloor>x\<rfloor>"
    have n1: "1 \<le> n" using True by (simp add: n_def)
    then have npos: "0 < n" by simp
    have k: "ilog2 x = bitlen n - 1" using True by (simp add: ilog2_def n_def)
    have b1: "1 \<le> bitlen n" using npos by (simp add: bitlen_alt_def)
    from bitlen_bounds [OF npos]
    have lo: "2 ^ nat (bitlen n - 1) \<le> n" and hi: "n < 2 ^ nat (bitlen n)" by simp_all
    have "(2::real) powi (bitlen n - 1) = 2 ^ nat (bitlen n - 1)"
      using b1 by (simp add: power_int_def)
    also have "\<dots> = of_int (2 ^ nat (bitlen n - 1))" by simp
    also have "\<dots> \<le> of_int n" using lo by (simp only: of_int_le_iff)
    also have "\<dots> \<le> x" by (simp add: n_def)
    finally have A: "2 powi ilog2 x \<le> x" by (simp add: k)
    have "n + 1 \<le> 2 ^ nat (bitlen n)" using hi by simp
    then have "of_int (n + 1) \<le> (of_int (2 ^ nat (bitlen n)) :: real)"
      by (simp only: of_int_le_iff)
    moreover have "x < of_int (n + 1)" by (simp add: n_def)
    ultimately have "x < 2 ^ nat (bitlen n)" by simp
    also have "\<dots> = 2 powi (bitlen n)" using b1 by (simp add: power_int_def)
    finally have B: "x < 2 powi (ilog2 x + 1)" by (simp add: k)
    from A B show ?thesis ..
  next
    case False
    then have x1: "x < 1" by simp
    define c where "c = \<lceil>1 / x\<rceil>"
    define m where "m = c - 1"
    have "1 < 1 / x" using assms x1 by (simp add: field_simps)
    then have "1 < c" unfolding c_def by (simp add: less_ceiling_iff)
    then have mpos: "0 < m" by (simp add: m_def)
    have k: "ilog2 x = - bitlen m" using False by (simp add: ilog2_def m_def c_def)
    have b1: "1 \<le> bitlen m" using mpos by (simp add: bitlen_alt_def)
    from bitlen_bounds [OF mpos]
    have lo: "2 ^ nat (bitlen m - 1) \<le> m" and hi: "m < 2 ^ nat (bitlen m)" by simp_all
    have "1 / x \<le> of_int c" by (simp add: c_def)
    also have "c \<le> 2 ^ nat (bitlen m)" using hi by (simp add: m_def)
    then have "(of_int c :: real) \<le> of_int (2 ^ nat (bitlen m))" by (simp only: of_int_le_iff)
    finally have "1 / x \<le> 2 ^ nat (bitlen m)" by simp
    then have "1 / 2 ^ nat (bitlen m) \<le> x" using assms by (simp add: field_simps)
    moreover have "(2::real) powi (- bitlen m) = 1 / 2 ^ nat (bitlen m)"
      using b1 by (simp add: power_int_def field_simps)
    ultimately have A: "2 powi ilog2 x \<le> x" by (simp add: k)
    have "(of_int (2 ^ nat (bitlen m - 1)) :: real) \<le> of_int m" using lo by (simp only: of_int_le_iff)
    then have "(2::real) ^ nat (bitlen m - 1) \<le> of_int m" by simp
    moreover have "of_int m < 1 / x" unfolding m_def c_def
      by (metis ceiling_diff_one less_ceiling_iff order_less_irrefl linorder_not_less floor_less_iff ceiling_correct of_int_diff of_int_1 diff_less_eq)
    ultimately have "2 ^ nat (bitlen m - 1) < 1 / x" by (rule order_le_less_trans)
    then have "x < 1 / 2 ^ nat (bitlen m - 1)" using assms by (simp add: field_simps)
    moreover have "(2::real) powi (- bitlen m + 1) = 1 / 2 ^ nat (bitlen m - 1)"
    proof -
      have "- bitlen m + 1 = - (bitlen m - 1)" by simp
      then have "(2::real) powi (- bitlen m + 1) = 2 powi (- (bitlen m - 1))" by simp
      also have "\<dots> = 1 / 2 powi (bitlen m - 1)" by (rule power_int_minus_divide)
      also have "\<dots> = 1 / 2 ^ nat (bitlen m - 1)" using b1 by (simp add: power_int_def)
      finally show ?thesis .
    qed
    ultimately have B: "x < 2 powi (ilog2 x + 1)" by (simp add: k)
    from A B show ?thesis ..
  qed
  then show "2 powi ilog2 x \<le> x" and "x < 2 powi (ilog2 x + 1)" by simp_all
qed

lemma ilog2_unique:
  assumes "2 powi k \<le> x" and "x < 2 powi (k + 1)"
  shows "ilog2 x = k"
proof -
  have xpos: "0 < x" using assms(1) two_powi_pos [of k] by linarith
  note b = ilog2_bounds [OF xpos]
  have "\<not> ilog2 x < k"
  proof
    assume "ilog2 x < k"
    then have "ilog2 x + 1 \<le> k" by simp
    then have "(2::real) powi (ilog2 x + 1) \<le> 2 powi k" by (rule two_powi_mono)
    with b(2) assms(1) show False by linarith
  qed
  moreover have "\<not> k < ilog2 x"
  proof
    assume "k < ilog2 x"
    then have "k + 1 \<le> ilog2 x" by simp
    then have "(2::real) powi (k + 1) \<le> 2 powi ilog2 x" by (rule two_powi_mono)
    with b(1) assms(2) show False by linarith
  qed
  ultimately show ?thesis by linarith
qed

lemma ilog2_mono:
  assumes "0 < x" and "x \<le> y"
  shows "ilog2 x \<le> ilog2 y"
proof (rule ccontr)
  assume "\<not> ilog2 x \<le> ilog2 y"
  then have "ilog2 y + 1 \<le> ilog2 x" by simp
  then have "(2::real) powi (ilog2 y + 1) \<le> 2 powi ilog2 x" by (rule two_powi_mono)
  moreover have "y < 2 powi (ilog2 y + 1)" using assms by (intro ilog2_bounds) simp
  moreover have "2 powi ilog2 x \<le> x" using assms by (intro ilog2_bounds)
  ultimately show False using assms(2) by linarith
qed

lemma fl_zero [simp]: "fl 0 = 0"
  by (simp add: fl_def)

lemma fl_minus: "fl (- x) = - fl x"
  by (simp add: fl_def fexp_def rhe_minus)

lemma fexp_mono: "0 < x \<Longrightarrow> x \<le> y \<Longrightarrow> fexp x \<le> fexp y"
  using ilog2_mono [of "\<bar>x\<bar>" "\<bar>y\<bar>"] by (simp add: fexp_def)

lemma scaled_upper:
  assumes "0 < x"
  shows "x / 2 powi fexp x < 2 ^ 53"
proof -
  have "ilog2 x + 1 \<le> fexp x + 53" using assms by (simp add: fexp_def)
  then have "(2::real) powi (ilog2 x + 1) \<le> 2 powi (fexp x + 53)" by (rule two_powi_mono)
  with ilog2_bounds(2) [OF assms] have "x < 2 powi (fexp x + 53)" by linarith
  also have "\<dots> = 2 powi fexp x * 2 ^ 53" by (simp add: power_int_add)
  finally show ?thesis by (simp add: field_simps)
qed

lemma scaled_lower:
  assumes "0 < x" and "- 1074 < fexp x"
  shows "2 ^ 52 \<le> x / 2 powi fexp x"
proof -
  have e: "fexp x = ilog2 x - 52" using assms by (simp add: fexp_def)
  have "(2::real) powi (fexp x + 52) = 2 powi ilog2 x" by (simp add: e)
  also have "\<dots> \<le> x" using assms(1) by (rule ilog2_bounds)
  finally have "2 powi fexp x * 2 ^ 52 \<le> x" by (simp add: power_int_add)
  then show ?thesis by (simp add: field_simps)
qed

lemma fl_nonneg: "0 \<le> x \<Longrightarrow> 0 \<le> fl x"
proof -
  assume "0 \<le> x"
  then have "0 \<le> x / 2 powi fexp x" by simp
  then have "round_half_even 0 \<le> round_half_even (x / 2 powi fexp x)" by (rule rhe_mono)
  moreover have "round_half_even 0 = 0" using rhe_of_int [of 0] by simp
  ultimately show ?thesis by (simp add: fl_def)
qed

lemma fl_mono_pos:
  assumes "0 < x" and "x \<le> y"
  shows "fl x \<le> fl y"
proof -
  have ypos: "0 < y" using assms by linarith
  have ee: "fexp x \<le> fexp y" using assms by (rule fexp_mono)
  show ?thesis
  proof (cases "fexp x = fexp y")
    case True
    have "x / 2 powi fexp y \<le> y / 2 powi fexp y" using assms(2) by (simp add: divide_right_mono)
    then have "round_half_even (x / 2 powi fexp y) \<le> round_half_even (y / 2 powi fexp y)"
      by (rule rhe_mono)
    then have "(of_int (round_half_even (x / 2 powi fexp y)) :: real) \<le> of_int (round_half_even (y / 2 powi fexp y))"
      by (simp only: of_int_le_iff)
    then have "(of_int (round_half_even (x / 2 powi fexp y)) :: real) * 2 powi fexp y
        \<le> of_int (round_half_even (y / 2 powi fexp y)) * 2 powi fexp y"
      by (simp add: mult_right_mono)
    then show ?thesis using assms ypos True by (simp add: fl_def)
  next
    case False
    then have lt: "fexp x + 1 \<le> fexp y" using ee by simp
    have "- 1074 \<le> fexp x" by (simp add: fexp_def)
    then have ylow: "- 1074 < fexp y" using lt by linarith
    have "x / 2 powi fexp x \<le> 2 ^ 53" using scaled_upper [OF assms(1)] by simp
    then have "round_half_even (x / 2 powi fexp x) \<le> round_half_even (of_int (2 ^ 53))"
      by (intro rhe_mono) simp
    then have "round_half_even (x / 2 powi fexp x) \<le> 2 ^ 53" by (simp only: rhe_of_int)
    then have "(of_int (round_half_even (x / 2 powi fexp x)) :: real) \<le> of_int (2 ^ 53)"
      by (simp only: of_int_le_iff)
    then have "(of_int (round_half_even (x / 2 powi fexp x)) :: real) \<le> 2 ^ 53" by simp
    then have "fl x \<le> 2 ^ 53 * 2 powi fexp x"
      using assms(1) by (simp add: fl_def mult_right_mono)
    also have "\<dots> = 2 ^ 52 * 2 powi (fexp x + 1)" by (simp add: two_powi_Suc)
    also have "\<dots> \<le> 2 ^ 52 * 2 powi fexp y" using two_powi_mono [OF lt] by simp
    also have "\<dots> \<le> fl y"
    proof -
      have "round_half_even (of_int (2 ^ 52)) \<le> round_half_even (y / 2 powi fexp y)"
        using scaled_lower [OF ypos ylow] by (intro rhe_mono) simp
      then have "2 ^ 52 \<le> round_half_even (y / 2 powi fexp y)" by (simp only: rhe_of_int)
      then have "(of_int (2 ^ 52) :: real) \<le> of_int (round_half_even (y / 2 powi fexp y))"
        by (simp only: of_int_le_iff)
      then have "(2 ^ 52 :: real) \<le> of_int (round_half_even (y / 2 powi fexp y))" by simp
      then show ?thesis using ypos by (simp add: fl_def mult_right_mono)
    qed
    finally show ?thesis .
  qed
qed

lemma fl_mono: "x \<le> y \<Longrightarrow> fl x \<le> fl y"
proof -
  assume xy: "x \<le> y"
  consider "0 < x" | "x \<le> 0" "0 \<le> y" | "y < 0" by linarith
  then show ?thesis
  proof cases
    case 1
    then show ?thesis using xy by (rule fl_mono_pos)
  next
    case 2
    have "0 \<le> fl y" using 2(2) by (rule fl_nonneg)
    moreover have "0 \<le> fl (- x)" using 2(1) by (intro fl_nonneg) simp
    ultimately show ?thesis by (simp add: fl_minus)
  next
    case 3
    then have "fl (- y) \<le> fl (- x)" using xy by (intro fl_mono_pos) simp_all
    then show ?thesis by (simp add: fl_minus)
  qed
qed

lemma fl_normal:
  assumes "2 powi (e + 52) \<le> \<bar>x\<bar>" and "\<bar>x\<bar> < 2 powi (e + 53)" and "- 1074 \<le> e"
  shows "fl x = of_int (round_half_even (x / 2 powi e)) * 2 powi e"
proof -
  have "ilog2 \<bar>x\<bar> = e + 52" using assms(1,2) by (intro ilog2_unique) (simp_all add: add.commute add.left_commute)
  then have "fexp x = e" using assms(3) by (simp add: fexp_def)
  moreover have "0 < \<bar>x\<bar>" using assms(1) by (rule less_le_trans [OF two_powi_pos])
  then have "x \<noteq> 0" by simp
  ultimately show ?thesis by (simp add: fl_def)
qed

lemma fl_representable:
  assumes "\<bar>m\<bar> \<le> 2 ^ 53" and "- 1074 \<le> k"
  shows "fl (of_int m * 2 powi k) = of_int m * 2 powi k"
proof (cases "m = 0")
  case True
  then show ?thesis by simp
next
  case False
  define x :: real where "x = of_int m * 2 powi k"
  have xne: "x \<noteq> 0" using False by (simp add: x_def)
  have ax: "\<bar>x\<bar> = of_int \<bar>m\<bar> * 2 powi k" by (simp add: x_def abs_mult)
  have "(of_int \<bar>m\<bar> :: real) \<le> of_int (2 ^ 53)" using assms(1) by (simp only: of_int_le_iff)
  then have "\<bar>x\<bar> \<le> 2 ^ 53 * 2 powi k" unfolding ax by (simp add: mult_right_mono)
  also have "\<dots> = 2 powi (k + 53)" by (simp add: power_int_add)
  finally have up: "\<bar>x\<bar> \<le> 2 powi (k + 53)" .
  have xpos: "0 < \<bar>x\<bar>" using xne by simp
  have "(2::real) powi ilog2 \<bar>x\<bar> \<le> 2 powi (k + 53)" using ilog2_bounds(1) [OF xpos] up by linarith
  then have il: "ilog2 \<bar>x\<bar> \<le> k + 53"
    by (metis two_powi_strict_mono linorder_not_less)
  have "\<exists>j. x / 2 powi fexp x = of_int j"
  proof (cases "ilog2 \<bar>x\<bar> = k + 53")
    case True
    then have "2 powi (k + 53) \<le> \<bar>x\<bar>" using ilog2_bounds(1) [OF xpos] by simp
    with up have eq: "\<bar>x\<bar> = 2 powi (k + 53)" by linarith
    have fe: "fexp x = k + 1" using True assms(2) by (simp add: fexp_def)
    have "\<bar>x\<bar> / 2 powi (k + 1) = 2 ^ 52"
      unfolding eq by (simp add: power_int_add)
    then have "x / 2 powi (k + 1) = 2 ^ 52 \<or> x / 2 powi (k + 1) = - (2 ^ 52)"
      by (cases "0 \<le> x") (simp_all add: abs_if)
    then show ?thesis unfolding fe
      by (metis of_int_numeral of_int_power of_int_minus)
  next
    case False
    then have "ilog2 \<bar>x\<bar> - 52 \<le> k" using il by simp
    then have fe: "fexp x \<le> k" using assms(2) by (simp add: fexp_def)
    have "x / 2 powi fexp x = of_int m * 2 powi (k - fexp x)"
      by (simp add: x_def power_int_diff)
    also have "\<dots> = of_int m * 2 ^ nat (k - fexp x)" using fe by (simp add: power_int_def)
    also have "\<dots> = of_int (m * 2 ^ nat (k - fexp x))" by simp
    finally show ?thesis by blast
  qed
  then obtain j where j: "x / 2 powi fexp x = of_int j" ..
  have "fl x = of_int j * 2 powi fexp x" using xne by (simp add: fl_def j)
  also have "\<dots> = x / 2 powi fexp x * 2 powi fexp x" by (simp only: j)
  also have "\<dots> = x" by simp
  finally show ?thesis by (simp add: x_def)
qed

lemma fl_of_int:
  assumes "\<bar>n\<bar> \<le> 2 ^ 53"
  shows "fl (of_int n) = of_int n"
  using fl_representable [OF assms, of 0] by simp

lemma fl_rel_error:
  assumes "2 powi (- 1022) \<le> x"
  shows "\<bar>fl x - x\<bar> \<le> x / 2 ^ 53"
proof -
  have xpos: "0 < x" using assms two_powi_pos [of "- 1022"] by linarith
  have "ilog2 (2 powi (- 1022)) \<le> ilog2 x" using assms by (intro ilog2_mono) simp_all
  moreover have "ilog2 (2 powi (- 1022)) = - 1022"
    by (rule ilog2_unique) (simp_all add: two_powi_strict_mono)
  ultimately have "- 1022 \<le> ilog2 x" by simp
  then have fe: "fexp x = ilog2 x - 52" using xpos by (simp add: fexp_def)
  define t where "t = x / 2 powi fexp x"
  have xt: "x = t * 2 powi fexp x" by (simp add: t_def)
  have "fl x - x = (of_int (round_half_even t) - t) * 2 powi fexp x"
    using xpos by (simp add: fl_def t_def algebra_simps)
  then have "\<bar>fl x - x\<bar> = \<bar>of_int (round_half_even t) - t\<bar> * 2 powi fexp x"
    by (simp add: abs_mult)
  also have "\<dots> \<le> 1 / 2 * 2 powi fexp x"
  proof (rule mult_right_mono)
    show "\<bar>of_int (round_half_even t) - t\<bar> \<le> 1 / 2"
      using rhe_upper [of t] rhe_lower [of t] by linarith
    show "0 \<le> (2::real) powi fexp x" by simp
  qed
  also have "\<dots> = 2 powi ilog2 x / 2 ^ 53"
    by (simp add: fe power_int_diff)
  also have "\<dots> \<le> x / 2 ^ 53" using ilog2_bounds(1) [OF xpos] by (simp add: divide_right_mono)
  finally show ?thesis .
qed

section \<open>Basic facts about the model\<close>

lemma bind_err_Inr [simp]: "bind_err (Inr v) f = f v"
  by (simp add: bind_err_def)

lemma bind_err_Inl [simp]: "bind_err (Inl e) f = Inl e"
  by (simp add: bind_err_def)

lemma crop_ok:
  "x0 \<le> x1 \<Longrightarrow> y0 \<le> y1 \<Longrightarrow>
   crop fill img x0 y0 x1 y1 =
     Inr \<lparr>width = x1 - x0, height = y1 - y0,
          pixel = (\<lambda>i j. if 0 \<le> x0 + i \<and> x0 + i < width img \<and> 0 \<le> y0 + j \<and> y0 + j < height img
                         then pixel img (x0 + i) (y0 + j) else fill)\<rparr>"
  by (simp add: crop_def)

lemma crop_solid:
  "x0 \<le> x1 \<Longrightarrow> y0 \<le> y1 \<Longrightarrow> crop v (solid w h v) x0 y0 x1 y1 = Inr (solid (x1 - x0) (y1 - y0) v)"
  by (simp add: crop_def solid_def fun_eq_iff)

lemma solid_simps [simp]:
  "width (solid w h v) = w" "height (solid w h v) = h" "pixel (solid w h v) x y = v"
  by (simp_all add: solid_def)

section \<open>The splitter\<close>

text \<open>
  C2 (as amended).  For an image at least two pixels wide and one pixel high, and for every
  seam coordinate the locator may return, the vertical split clamps the seam into
  \<open>[1, width - 1]\<close>, returns two parts that are both non-empty, whose widths add up to the
  width of the image and whose height is the height of the image; the left part holds the
  columns before the seam and the right part the columns from the seam on.  The horizontal
  split does the same along the height, for an image at least two pixels high and one wide.
\<close>

theorem splitter_partition:
  "(2 \<le> width im \<and> 1 \<le> height im \<longrightarrow>
      (\<exists>left right. split_vertical fill im split_x = Inr (left, right)
         \<and> width left = max 1 (min (width im - 1) split_x)
         \<and> 1 \<le> width left \<and> width left \<le> width im - 1
         \<and> 1 \<le> width right \<and> width left + width right = width im
         \<and> height left = height im \<and> height right = height im
         \<and> (\<forall>i j. 0 \<le> i \<and> i < width left \<and> 0 \<le> j \<and> j < height im \<longrightarrow> pixel left i j = pixel im i j)
         \<and> (\<forall>i j. 0 \<le> i \<and> i < width right \<and> 0 \<le> j \<and> j < height im
               \<longrightarrow> pixel right i j = pixel im (width left + i) j)))
   \<and> (2 \<le> height im \<and> 1 \<le> width im \<longrightarrow>
      (\<exists>top bottom. split_horizontal fill im split_y = Inr (top, bottom)
         \<and> height top = max 1 (min (height im - 1) split_y)
         \<and> 1 \<le> height top \<and> height top \<le> height im - 1
         \<and> 1 \<le> height bottom \<and> height top + height bottom = height im
         \<and> width top = width im \<and> width bottom = width im
         \<and> (\<forall>i j. 0 \<le> i \<and> i < width im \<and> 0 \<le> j \<and> j < height top \<longrightarrow> pixel top i j = pixel im i j)
         \<and> (\<forall>i j. 0 \<le> i \<and> i < width im \<and> 0 \<le> j \<and> j < height bottom
               \<longrightarrow> pixel bottom i j = pixel im i (height top + j))))"
proof (intro conjI impI)
  assume a: "2 \<le> width im \<and> 1 \<le> height im"
  define s where "s = max 1 (min (width im - 1) split_x)"
  have s: "1 \<le> s" "s \<le> width im - 1" using a by (auto simp: s_def)
  have "split_vertical fill im split_x =
      bind_err (crop fill im 0 0 s (height im)) (\<lambda>left.
        bind_err (crop fill im s 0 (width im) (height im)) (\<lambda>right. Inr (left, right)))"
    by (simp add: split_vertical_def Let_def s_def)
  then show "\<exists>left right. split_vertical fill im split_x = Inr (left, right)
         \<and> width left = max 1 (min (width im - 1) split_x)
         \<and> 1 \<le> width left \<and> width left \<le> width im - 1
         \<and> 1 \<le> width right \<and> width left + width right = width im
         \<and> height left = height im \<and> height right = height im
         \<and> (\<forall>i j. 0 \<le> i \<and> i < width left \<and> 0 \<le> j \<and> j < height im \<longrightarrow> pixel left i j = pixel im i j)
         \<and> (\<forall>i j. 0 \<le> i \<and> i < width right \<and> 0 \<le> j \<and> j < height im
               \<longrightarrow> pixel right i j = pixel im (width left + i) j)"
    using s a unfolding s_def [symmetric] by (simp add: crop_ok)
next
  assume a: "2 \<le> height im \<and> 1 \<le> width im"
  define s where "s = max 1 (min (height im - 1) split_y)"
  have s: "1 \<le> s" "s \<le> height im - 1" using a by (auto simp: s_def)
  have "split_horizontal fill im split_y =
      bind_err (crop fill im 0 0 (width im) s) (\<lambda>top.
        bind_err (crop fill im 0 s (width im) (height im)) (\<lambda>bottom. Inr (top, bottom)))"
    by (simp add: split_horizontal_def Let_def s_def)
  then show "\<exists>top bottom. split_horizontal fill im split_y = Inr (top, bottom)
         \<and> height top = max 1 (min (height im - 1) split_y)
         \<and> 1 \<le> height top \<and> height top \<le> height im - 1
         \<and> 1 \<le> height bottom \<and> height top + height bottom = height im
         \<and> width top = width im \<and> width bottom = width im
         \<and> (\<forall>i j. 0 \<le> i \<and> i < width im \<and> 0 \<le> j \<and> j < height top \<longrightarrow> pixel top i j = pixel im i j)
         \<and> (\<forall>i j. 0 \<le> i \<and> i < width im \<and> 0 \<le> j \<and> j < height bottom
               \<longrightarrow> pixel bottom i j = pixel im i (height top + j))"
    using s a unfolding s_def [symmetric] by (simp add: crop_ok)
qed

text \<open>The theorem at a 10 by 4 image cut at column 7, and at a 4 by 10 image with a seam beyond the last row.\<close>

theorem splitter_partition_witness:
  "split_vertical (0 :: 8 word) (solid 10 4 0) 7 = Inr (solid 7 4 0, solid 3 4 0)
   \<and> split_horizontal (0 :: 8 word) (solid 4 10 0) 12 = Inr (solid 4 9 0, solid 4 1 0)"
  using splitter_partition [where im = "solid 10 4 (0 :: 8 word)" and fill = 0 and split_x = 7]
    splitter_partition [where im = "solid 4 10 (0 :: 8 word)" and fill = 0 and split_y = 12]
  by (simp add: split_vertical_def split_horizontal_def crop_solid)

text \<open>
  An image one pixel wide, split vertically: the clamped seam is \<open>1\<close>, outside
  \<open>[1, width - 1]\<close>, which is empty, and the right part has no columns.
\<close>

theorem splitter_narrow_counterexample:
  "split_vertical (0 :: 8 word) (solid 1 1 0) 0 = Inr (solid 1 1 0, solid 0 1 0)
   \<and> width (solid 0 1 (0 :: 8 word)) = 0"
  by (simp add: split_vertical_def crop_solid)

section \<open>The gutter scorer\<close>

lemma length_pixels: "length (pixels img) = nat (width img) * nat (height img)"
proof -
  have "\<And>ys. sum_list (map (\<lambda>y. length (map (\<lambda>x. pixel img x y) [0..width img - 1])) ys)
      = nat (width img) * length ys"
  proof -
    fix ys :: "int list"
    show "sum_list (map (\<lambda>y. length (map (\<lambda>x. pixel img x y) [0..width img - 1])) ys)
      = nat (width img) * length ys"
      by (induction ys) simp_all
  qed
  then show ?thesis
    by (simp add: pixels_def length_concat comp_def)
qed

lemma pixels_solid: "pixels (solid w h v) = replicate (nat w * nat h) v"
proof -
  have row: "map (\<lambda>x. v) [0..w - 1] = replicate (nat w) v"
    by (simp add: map_replicate_const)
  have "\<And>ys :: int list. concat (map (\<lambda>y. replicate (nat w) v) ys) = replicate (nat w * length ys) v"
  proof -
    fix ys :: "int list"
    show "concat (map (\<lambda>y. replicate (nat w) v) ys) = replicate (nat w * length ys) v"
      by (induction ys) (simp_all add: replicate_add [symmetric])
  qed
  then show ?thesis
    by (simp add: pixels_def row)
qed

lemma ink_map_upt:
  "ink (map c [0..<n]) = (\<Sum>i<n. (255 - int i) * int (c i))"
proof -
  have "enumerate 0 (map c [0..<n]) = map (\<lambda>i. (i, c i)) [0..<n]"
    by (simp add: enumerate_map_upt)
  then have "ink (map c [0..<n]) = sum_list (map (\<lambda>i. (255 - int i) * int (c i)) [0..<n])"
    by (simp add: ink_def comp_def)
  also have "\<dots> = (\<Sum>i<n. (255 - int i) * int (c i))"
    by (simp add: interv_sum_list_conv_sum_set_nat atLeast0LessThan)
  finally show ?thesis .
qed

lemma count_sum_darkness:
  "(\<Sum>i<256. (255 - int i) * int (length (filter (\<lambda>p. unat p = i) ps))) = darkness ps"
proof (induction ps)
  case Nil
  then show ?case by (simp add: darkness_def)
next
  case (Cons p ps)
  have lt: "unat p < 256" using unsigned_less [of p] by simp
  have split: "\<And>i. (255 - int i) * int (length (filter (\<lambda>q. unat q = i) (p # ps)))
      = (if i = unat p then 255 - int i else 0)
        + (255 - int i) * int (length (filter (\<lambda>q. unat q = i) ps))"
    by (auto simp: algebra_simps)
  have "(\<Sum>i<256. (255 - int i) * int (length (filter (\<lambda>q. unat q = i) (p # ps))))
      = (\<Sum>i<256. if i = unat p then 255 - int i else 0)
        + (\<Sum>i<256. (255 - int i) * int (length (filter (\<lambda>q. unat q = i) ps)))"
    by (simp only: split sum.distrib)
  also have "(\<Sum>i<256. if i = unat p then 255 - int i else 0) = 255 - int (unat p)"
    using lt by (simp add: sum.delta)
  finally show ?case using Cons.IH by (simp add: darkness_def)
qed

lemma ink_histogram: "ink (histogram g) = darkness (pixels g)"
  by (simp add: histogram_def ink_map_upt count_sum_darkness)

lemma ink_histogram_count:
  "ink (histogram g) = (\<Sum>i<256. (255 - int i) * int (length (filter (\<lambda>p. unat p = i) (pixels g))))"
  by (simp add: histogram_def ink_map_upt)

lemma darkness_bounds: "0 \<le> darkness ps" "darkness ps \<le> 255 * int (length ps)"
proof -
  have "0 \<le> darkness ps \<and> darkness ps \<le> 255 * int (length ps)"
  proof (induction ps)
    case Nil
    then show ?case by (simp add: darkness_def)
  next
    case (Cons p ps)
    have b: "uint p < 256" using uint_lt2p [of p] by simp
    have "darkness (p # ps) = 255 - uint p + darkness ps" by (simp add: darkness_def)
    moreover have "0 \<le> uint p" by simp
    moreover have "int (length (p # ps)) = int (length ps) + 1" by simp
    ultimately show ?case using Cons b by linarith
  qed
  then show "0 \<le> darkness ps" "darkness ps \<le> 255 * int (length ps)" by simp_all
qed

lemma darkness_white: "\<forall>p\<in>set ps. p = 255 \<Longrightarrow> darkness ps = 0"
  by (induction ps) (simp_all add: darkness_def)

lemma darkness_black: "\<forall>p\<in>set ps. p = 0 \<Longrightarrow> darkness ps = 255 * int (length ps)"
  by (induction ps) (simp_all add: darkness_def)

lemma darkness_replicate: "darkness (replicate n v) = int n * (255 - int (unat v))"
  by (induction n) (simp_all add: darkness_def algebra_simps)

lemma gutter_score_vertical_eq:
  "gutter_score_vertical g xc bp y0 y1 =
     (if band_hi (width g) xc bp \<le> band_lo xc bp then Inr (10 ^ 18)
      else bind_err (crop 0 g (band_lo xc bp) y0 (band_hi (width g) xc bp) y1)
             (\<lambda>band. Inr (darkness (pixels band))))"
  by (simp add: gutter_score_vertical_def band_lo_def band_hi_def Let_def ink_histogram)

lemma gutter_score_horizontal_eq:
  "gutter_score_horizontal g yc bp x0 x1 =
     (if band_hi (height g) yc bp \<le> band_lo yc bp then Inr (10 ^ 18)
      else bind_err (crop 0 g x0 (band_lo yc bp) x1 (band_hi (height g) yc bp))
             (\<lambda>band. Inr (darkness (pixels band))))"
  by (simp add: gutter_score_horizontal_def band_lo_def band_hi_def Let_def ink_histogram)

lemma pixels_const:
  assumes "\<And>x y. 0 \<le> x \<Longrightarrow> x < width img \<Longrightarrow> 0 \<le> y \<Longrightarrow> y < height img \<Longrightarrow> pixel img x y = v"
  shows "pixels img = replicate (nat (width img) * nat (height img)) v"
proof -
  have "concat (map (\<lambda>y. map (\<lambda>x. pixel img x y) [0..width img - 1]) [0..height img - 1])
      = concat (map (\<lambda>y. map (\<lambda>x. v) [0..width img - 1]) [0..height img - 1])"
    by (rule arg_cong [where f = concat]) (auto intro!: map_cong simp: assms)
  then have "pixels img = pixels (solid (width img) (height img) v)"
    by (simp add: pixels_def)
  then show ?thesis by (simp add: pixels_solid)
qed

lemma pixels_crop_solid:
  assumes "0 \<le> x0" "x0 \<le> x1" "x1 \<le> w" "0 \<le> y0" "y0 \<le> y1" "y1 \<le> h"
    and "crop fill (solid w h v) x0 y0 x1 y1 = Inr band"
  shows "pixels band = replicate (nat (x1 - x0) * nat (y1 - y0)) v"
proof -
  have band: "band = \<lparr>width = x1 - x0, height = y1 - y0,
      pixel = (\<lambda>i j. if 0 \<le> x0 + i \<and> x0 + i < w \<and> 0 \<le> y0 + j \<and> y0 + j < h then v else fill)\<rparr>"
    using assms by (auto simp: crop_def cong: if_cong)
  have "pixels band = replicate (nat (width band) * nat (height band)) v"
    by (rule pixels_const) (use assms(1-6) in \<open>auto simp: band\<close>)
  then show ?thesis by (simp add: band)
qed

lemma band_within: "0 \<le> band_lo c bp" "band_hi d c bp \<le> d"
  by (simp_all add: band_lo_def band_hi_def)

lemma gutter_score_vertical_solid:
  assumes "band_lo xc bp < band_hi w xc bp" "0 \<le> y0" "y0 \<le> y1" "y1 \<le> h"
  shows "gutter_score_vertical (solid w h v) xc bp y0 y1
     = Inr ((band_hi w xc bp - band_lo xc bp) * (y1 - y0) * (255 - int (unat v)))"
proof -
  obtain band where c: "crop 0 (solid w h v) (band_lo xc bp) y0 (band_hi w xc bp) y1 = Inr band"
    using assms by (simp add: crop_def)
  have "pixels band = replicate (nat (band_hi w xc bp - band_lo xc bp) * nat (y1 - y0)) v"
    using assms band_within(1) [of xc bp] band_within(2) [of w xc bp] by (intro pixels_crop_solid [OF _ _ _ _ _ _ c]) simp_all
  then show ?thesis using assms
    by (simp add: gutter_score_vertical_eq c darkness_replicate nat_mult_distrib [symmetric])
qed

lemma gutter_score_horizontal_solid:
  assumes "band_lo yc bp < band_hi h yc bp" "0 \<le> x0" "x0 \<le> x1" "x1 \<le> w"
  shows "gutter_score_horizontal (solid w h v) yc bp x0 x1
     = Inr ((x1 - x0) * (band_hi h yc bp - band_lo yc bp) * (255 - int (unat v)))"
proof -
  obtain band where c: "crop 0 (solid w h v) x0 (band_lo yc bp) x1 (band_hi h yc bp) = Inr band"
    using assms by (simp add: crop_def)
  have "pixels band = replicate (nat (x1 - x0) * nat (band_hi h yc bp - band_lo yc bp)) v"
    using assms band_within(1) [of yc bp] band_within(2) [of h yc bp] by (intro pixels_crop_solid [OF _ _ _ _ _ _ c]) simp_all
  then show ?thesis using assms
    by (simp add: gutter_score_horizontal_eq c darkness_replicate nat_mult_distrib [symmetric])
qed

lemma band_score_facts:
  assumes c: "crop 0 g x0 y0 x1 y1 = Inr band"
  shows "length (pixels band) = nat (x1 - x0) * nat (y1 - y0)"
  using c by (auto simp: crop_def length_pixels split: if_splits)

text \<open>
  C7.  For every band that is not degenerate along the search axis (and whose perpendicular
  range is not inverted), the scorer returns the sum over the intensities \<open>i\<close> in
  \<open>0..255\<close> of \<open>(255 - i) * count(i)\<close>, the counts being taken over the samples of the band;
  this is the total darkness \<open>255 - intensity\<close> of the samples.  A band whose samples are
  all \<open>255\<close> scores \<open>0\<close>, a band whose samples are all \<open>0\<close> scores \<open>255\<close> times its number
  of samples, and no band scores more than that.  The same holds for the horizontal scorer.
\<close>

theorem gutter_score_reference:
  "(band_lo xc bp < band_hi (width g) xc bp \<and> y0 \<le> y1 \<longrightarrow>
      (\<exists>band. crop 0 g (band_lo xc bp) y0 (band_hi (width g) xc bp) y1 = Inr band
         \<and> length (pixels band) = nat (band_hi (width g) xc bp - band_lo xc bp) * nat (y1 - y0)
         \<and> gutter_score_vertical g xc bp y0 y1
             = Inr (\<Sum>i<256. (255 - int i) * int (length (filter (\<lambda>p. unat p = i) (pixels band))))
         \<and> gutter_score_vertical g xc bp y0 y1 = Inr (darkness (pixels band))
         \<and> ((\<forall>p\<in>set (pixels band). p = 255) \<longrightarrow> gutter_score_vertical g xc bp y0 y1 = Inr 0)
         \<and> ((\<forall>p\<in>set (pixels band). p = 0)
               \<longrightarrow> gutter_score_vertical g xc bp y0 y1 = Inr (255 * int (length (pixels band))))
         \<and> 0 \<le> darkness (pixels band) \<and> darkness (pixels band) \<le> 255 * int (length (pixels band))))
   \<and> (band_lo yc bp < band_hi (height g) yc bp \<and> x0 \<le> x1 \<longrightarrow>
      (\<exists>band. crop 0 g x0 (band_lo yc bp) x1 (band_hi (height g) yc bp) = Inr band
         \<and> length (pixels band) = nat (x1 - x0) * nat (band_hi (height g) yc bp - band_lo yc bp)
         \<and> gutter_score_horizontal g yc bp x0 x1
             = Inr (\<Sum>i<256. (255 - int i) * int (length (filter (\<lambda>p. unat p = i) (pixels band))))
         \<and> gutter_score_horizontal g yc bp x0 x1 = Inr (darkness (pixels band))
         \<and> ((\<forall>p\<in>set (pixels band). p = 255) \<longrightarrow> gutter_score_horizontal g yc bp x0 x1 = Inr 0)
         \<and> ((\<forall>p\<in>set (pixels band). p = 0)
               \<longrightarrow> gutter_score_horizontal g yc bp x0 x1 = Inr (255 * int (length (pixels band))))
         \<and> 0 \<le> darkness (pixels band) \<and> darkness (pixels band) \<le> 255 * int (length (pixels band))))"
proof (intro conjI impI)
  assume a: "band_lo xc bp < band_hi (width g) xc bp \<and> y0 \<le> y1"
  then obtain band where c: "crop 0 g (band_lo xc bp) y0 (band_hi (width g) xc bp) y1 = Inr band"
    by (simp add: crop_def)
  have s: "gutter_score_vertical g xc bp y0 y1 = Inr (darkness (pixels band))"
    using a by (simp add: gutter_score_vertical_eq c)
  show "\<exists>band. crop 0 g (band_lo xc bp) y0 (band_hi (width g) xc bp) y1 = Inr band
         \<and> length (pixels band) = nat (band_hi (width g) xc bp - band_lo xc bp) * nat (y1 - y0)
         \<and> gutter_score_vertical g xc bp y0 y1
             = Inr (\<Sum>i<256. (255 - int i) * int (length (filter (\<lambda>p. unat p = i) (pixels band))))
         \<and> gutter_score_vertical g xc bp y0 y1 = Inr (darkness (pixels band))
         \<and> ((\<forall>p\<in>set (pixels band). p = 255) \<longrightarrow> gutter_score_vertical g xc bp y0 y1 = Inr 0)
         \<and> ((\<forall>p\<in>set (pixels band). p = 0)
               \<longrightarrow> gutter_score_vertical g xc bp y0 y1 = Inr (255 * int (length (pixels band))))
         \<and> 0 \<le> darkness (pixels band) \<and> darkness (pixels band) \<le> 255 * int (length (pixels band))"
    using c band_score_facts [OF c] darkness_bounds [of "pixels band"]
    by (intro exI [of _ band]) (simp add: s count_sum_darkness darkness_white darkness_black)
next
  assume a: "band_lo yc bp < band_hi (height g) yc bp \<and> x0 \<le> x1"
  then obtain band where c: "crop 0 g x0 (band_lo yc bp) x1 (band_hi (height g) yc bp) = Inr band"
    by (simp add: crop_def)
  have s: "gutter_score_horizontal g yc bp x0 x1 = Inr (darkness (pixels band))"
    using a by (simp add: gutter_score_horizontal_eq c)
  show "\<exists>band. crop 0 g x0 (band_lo yc bp) x1 (band_hi (height g) yc bp) = Inr band
         \<and> length (pixels band) = nat (x1 - x0) * nat (band_hi (height g) yc bp - band_lo yc bp)
         \<and> gutter_score_horizontal g yc bp x0 x1
             = Inr (\<Sum>i<256. (255 - int i) * int (length (filter (\<lambda>p. unat p = i) (pixels band))))
         \<and> gutter_score_horizontal g yc bp x0 x1 = Inr (darkness (pixels band))
         \<and> ((\<forall>p\<in>set (pixels band). p = 255) \<longrightarrow> gutter_score_horizontal g yc bp x0 x1 = Inr 0)
         \<and> ((\<forall>p\<in>set (pixels band). p = 0)
               \<longrightarrow> gutter_score_horizontal g yc bp x0 x1 = Inr (255 * int (length (pixels band))))
         \<and> 0 \<le> darkness (pixels band) \<and> darkness (pixels band) \<le> 255 * int (length (pixels band))"
    using c band_score_facts [OF c] darkness_bounds [of "pixels band"]
    by (intro exI [of _ band]) (simp add: s count_sum_darkness darkness_white darkness_black)
qed

text \<open>The theorem at a white 4 by 3 image and at a black 3 by 4 image, bands of 2 by 3 and 3 by 2 samples.\<close>

theorem gutter_score_reference_witness:
  "gutter_score_vertical (solid 4 3 255) 2 2 0 3 = Inr 0
   \<and> gutter_score_horizontal (solid 3 4 0) 2 2 0 3 = Inr 1530"
proof
  have b: "band_lo 2 2 = 1" "band_hi 4 2 2 = 3" by (simp_all add: band_lo_def band_hi_def)
  from gutter_score_reference [of 2 2 "solid 4 3 255" 0 3 2 0 3]
  obtain band where c: "crop 0 (solid 4 3 (255 :: 8 word)) 1 0 3 3 = Inr band"
    and w: "(\<forall>p\<in>set (pixels band). p = 255) \<longrightarrow> gutter_score_vertical (solid 4 3 255) 2 2 0 3 = Inr 0"
    by (auto simp: b)
  have "pixels band = replicate (nat (3 - 1) * nat (3 - 0)) 255"
    by (rule pixels_crop_solid [OF _ _ _ _ _ _ c]) simp_all
  with w show "gutter_score_vertical (solid 4 3 255) 2 2 0 3 = Inr 0" by simp
next
  have b: "band_lo 2 2 = 1" "band_hi 4 2 2 = 3" by (simp_all add: band_lo_def band_hi_def)
  from gutter_score_reference [of 2 2 "solid 3 4 0" 0 3 2 0 3]
  obtain band where c: "crop 0 (solid 3 4 (0 :: 8 word)) 0 1 3 3 = Inr band"
    and w: "(\<forall>p\<in>set (pixels band). p = 0)
       \<longrightarrow> gutter_score_horizontal (solid 3 4 0) 2 2 0 3 = Inr (255 * int (length (pixels band)))"
    by (auto simp: b)
  have "pixels band = replicate (nat (3 - 0) * nat (3 - 1)) 0"
    by (rule pixels_crop_solid [OF _ _ _ _ _ _ c]) simp_all
  with w show "gutter_score_horizontal (solid 3 4 0) 2 2 0 3 = Inr 1530" by simp
qed

text \<open>
  C5 (as amended).  If the clamped extent of the band along the search axis is empty
  (\<open>x1 \<le> x0\<close> in the vertical scorer, \<open>y1 \<le> y0\<close> in the horizontal one), which happens exactly
  when the thickness is not positive or the clamped start lies at or beyond the end of the
  image, the scorer returns \<open>10 ^ 18\<close> whatever the image holds and whatever the perpendicular
  range is.  This value is greater than the score of every band that is not degenerate and has
  fewer than \<open>10 ^ 18 / 255\<close> samples.
\<close>

theorem degenerate_band_sentinel:
  "(band_hi (width g) xc bp \<le> band_lo xc bp \<longrightarrow> gutter_score_vertical g xc bp y0 y1 = Inr (10 ^ 18))
   \<and> (band_hi (height g) yc bp \<le> band_lo yc bp \<longrightarrow> gutter_score_horizontal g yc bp x0 x1 = Inr (10 ^ 18))
   \<and> (band_hi d c bp \<le> band_lo c bp \<longleftrightarrow> bp \<le> 0 \<or> d \<le> max 0 (c - bp div 2))
   \<and> (band_lo xc bp < band_hi (width g) xc bp \<and> y0 \<le> y1
        \<and> 255 * ((band_hi (width g) xc bp - band_lo xc bp) * (y1 - y0)) < 10 ^ 18
      \<longrightarrow> (\<exists>s. gutter_score_vertical g xc bp y0 y1 = Inr s \<and> s < 10 ^ 18))
   \<and> (band_lo yc bp < band_hi (height g) yc bp \<and> x0 \<le> x1
        \<and> 255 * ((x1 - x0) * (band_hi (height g) yc bp - band_lo yc bp)) < 10 ^ 18
      \<longrightarrow> (\<exists>s. gutter_score_horizontal g yc bp x0 x1 = Inr s \<and> s < 10 ^ 18))"
proof (intro conjI impI)
  show "gutter_score_vertical g xc bp y0 y1 = Inr (10 ^ 18)" if "band_hi (width g) xc bp \<le> band_lo xc bp"
    using that by (simp add: gutter_score_vertical_eq)
  show "gutter_score_horizontal g yc bp x0 x1 = Inr (10 ^ 18)" if "band_hi (height g) yc bp \<le> band_lo yc bp"
    using that by (simp add: gutter_score_horizontal_eq)
  show "band_hi d c bp \<le> band_lo c bp \<longleftrightarrow> bp \<le> 0 \<or> d \<le> max 0 (c - bp div 2)"
    by (auto simp: band_hi_def band_lo_def)
next
  assume a: "band_lo xc bp < band_hi (width g) xc bp \<and> y0 \<le> y1
        \<and> 255 * ((band_hi (width g) xc bp - band_lo xc bp) * (y1 - y0)) < 10 ^ 18"
  then obtain band where c: "crop 0 g (band_lo xc bp) y0 (band_hi (width g) xc bp) y1 = Inr band"
    by (simp add: crop_def)
  have eq: "int (length (pixels band)) = (band_hi (width g) xc bp - band_lo xc bp) * (y1 - y0)"
    using a by (simp add: band_score_facts [OF c])
  have "darkness (pixels band) \<le> 255 * ((band_hi (width g) xc bp - band_lo xc bp) * (y1 - y0))"
    using darkness_bounds(2) [of "pixels band"] unfolding eq .
  moreover have "255 * ((band_hi (width g) xc bp - band_lo xc bp) * (y1 - y0)) < 10 ^ 18"
    using a by blast
  ultimately have "darkness (pixels band) < 10 ^ 18" by (rule le_less_trans)
  then show "\<exists>s. gutter_score_vertical g xc bp y0 y1 = Inr s \<and> s < 10 ^ 18"
    using a by (simp add: gutter_score_vertical_eq c)
next
  assume a: "band_lo yc bp < band_hi (height g) yc bp \<and> x0 \<le> x1
        \<and> 255 * ((x1 - x0) * (band_hi (height g) yc bp - band_lo yc bp)) < 10 ^ 18"
  then obtain band where c: "crop 0 g x0 (band_lo yc bp) x1 (band_hi (height g) yc bp) = Inr band"
    by (simp add: crop_def)
  have eq: "int (length (pixels band)) = (x1 - x0) * (band_hi (height g) yc bp - band_lo yc bp)"
    using a by (simp add: band_score_facts [OF c])
  have "darkness (pixels band) \<le> 255 * ((x1 - x0) * (band_hi (height g) yc bp - band_lo yc bp))"
    using darkness_bounds(2) [of "pixels band"] unfolding eq .
  moreover have "255 * ((x1 - x0) * (band_hi (height g) yc bp - band_lo yc bp)) < 10 ^ 18"
    using a by blast
  ultimately have "darkness (pixels band) < 10 ^ 18" by (rule le_less_trans)
  then show "\<exists>s. gutter_score_horizontal g yc bp x0 x1 = Inr s \<and> s < 10 ^ 18"
    using a by (simp add: gutter_score_horizontal_eq c)
qed

text \<open>The theorem at a band that starts beyond the last column, and at a band of thickness \<open>0\<close>.\<close>

theorem degenerate_band_sentinel_witness:
  "gutter_score_vertical (solid 3 3 0) 5 2 0 3 = Inr (10 ^ 18)
   \<and> gutter_score_horizontal (solid 3 3 255) 1 0 0 3 = Inr (10 ^ 18)"
  using degenerate_band_sentinel [where g = "solid 3 3 0" and xc = 5 and bp = 2 and ?y0.0 = 0 and ?y1.0 = 3]
    degenerate_band_sentinel [where g = "solid 3 3 255" and yc = 1 and bp = 0 and ?x0.0 = 0 and ?x1.0 = 3]
  by (simp add: band_lo_def band_hi_def)

text \<open>
  A band of zero area that does not score \<open>10 ^ 18\<close>: on a black 3 by 3 image, the band of
  columns \<open>0\<close> and \<open>1\<close> with the empty perpendicular range \<open>[0, 0)\<close> has no samples and
  scores \<open>0\<close>, the best score there is.
\<close>

theorem empty_perpendicular_range_counterexample:
  "gutter_score_vertical (solid 3 3 0) 1 2 0 0 = Inr 0
   \<and> gutter_score_horizontal (solid 3 3 0) 1 2 2 2 = Inr 0"
  by (simp add: gutter_score_vertical_solid gutter_score_horizontal_solid band_lo_def band_hi_def)

section \<open>Floats of the script\<close>

lemma fl_one [simp]: "fl 1 = 1"
  using fl_of_int [of 1] by simp

lemma float_of_int_exact: "\<bar>n\<bar> \<le> 2 ^ 53 \<Longrightarrow> float_of_int n = of_int n"
  by (simp add: float_of_int_def fl_of_int)

lemma float_of_int_mono: "m \<le> n \<Longrightarrow> float_of_int m \<le> float_of_int n"
  by (simp add: float_of_int_def fl_mono)

lemma float_of_int_nonneg: "0 \<le> n \<Longrightarrow> 0 \<le> float_of_int n"
  by (simp add: float_of_int_def fl_nonneg)

lemma float_of_int_ge_one: "1 \<le> n \<Longrightarrow> 1 \<le> float_of_int n"
  using float_of_int_mono [of 1 n] by (simp add: float_of_int_def)

lemma fl_le_int: "x \<le> of_int n \<Longrightarrow> \<bar>n\<bar> \<le> 2 ^ 53 \<Longrightarrow> fl x \<le> of_int n"
  using fl_mono [of x "of_int n"] by (simp add: fl_of_int)

lemma fl_ge_int: "of_int n \<le> x \<Longrightarrow> \<bar>n\<bar> \<le> 2 ^ 53 \<Longrightarrow> of_int n \<le> fl x"
  using fl_mono [of "of_int n" x] by (simp add: fl_of_int)

lemma lit_1_35_value: "lit_1_35 = 3039929748475085 / 2251799813685248"
  unfolding lit_1_35_def by code_simp

lemma lit_0_95_value: "lit_0_95 = 4278419646001971 / 4503599627370496"
  unfolding lit_0_95_def by code_simp

lemma default_fractions: "fraction default_search" "fraction default_band"
  unfolding fraction_def by code_simp+

lemma below_1_35_representable: "fl (3039929748475084 / 2251799813685248) = 3039929748475084 / 2251799813685248"
  using fl_representable [of 3039929748475084 "- 51"] by (simp add: power_int_minus_divide)

section \<open>The orientation classifier\<close>

text \<open>
  The float test \<^verbatim>\<open>a / max(b, 1) >= 1.35\<close> decides the exact inequality: the literal
  rounds up, the largest float below it is still above every quotient \<open>a / b < 1.35\<close> with
  \<open>b < 2 ^ 31\<close>, and rounding is monotone.
\<close>

lemma ratio_test_exact:
  assumes "0 < a" and "0 < b" and "b < 2 ^ 31"
  shows "lit_1_35 \<le> fl (of_int a / of_int (max b 1)) \<longleftrightarrow> (135 / 100 :: real) \<le> of_int a / of_int b"
proof -
  have mb: "max b 1 = b" using assms by simp
  have bpos: "(0::real) < of_int b" using assms by simp
  show ?thesis
  proof
    assume "(135 / 100 :: real) \<le> of_int a / of_int b"
    then have "fl (135 / 100) \<le> fl (of_int a / of_int b)" by (rule fl_mono)
    then show "lit_1_35 \<le> fl (of_int a / of_int (max b 1))" by (simp add: lit_1_35_def mb)
  next
    assume L: "lit_1_35 \<le> fl (of_int a / of_int (max b 1))"
    show "(135 / 100 :: real) \<le> of_int a / of_int b"
    proof (rule ccontr)
      assume "\<not> (135 / 100 :: real) \<le> of_int a / of_int b"
      then have "of_int a / of_int b < (27 / 20 :: real)" by simp
      then have "(of_int a :: real) * 20 < 27 * of_int b" using bpos by (simp add: field_simps)
      then have "(of_int (a * 20) :: real) < of_int (27 * b)" by simp
      then have "a * 20 < 27 * b" by (simp only: of_int_less_iff)
      then have "a * 20 \<le> 27 * b - 1" by simp
      then have "(of_int (a * 20) :: real) \<le> of_int (27 * b - 1)" by (simp only: of_int_le_iff)
      then have le: "(of_int a :: real) * 20 \<le> 27 * of_int b - 1" by simp
      have "(of_int b :: real) < of_int (2 ^ 31)" using assms(3) by (simp only: of_int_less_iff)
      then have b31: "(of_int b :: real) < 2 ^ 31" by simp
      have "(of_int a :: real) / of_int b \<le> 3039929748475084 / 2251799813685248"
      proof -
        have "(of_int a :: real) * 20 * 2251799813685248 \<le> (27 * of_int b - 1) * 2251799813685248"
          using le by simp
        also have "\<dots> \<le> 3039929748475084 * 20 * of_int b" using b31 by simp
        finally have "(of_int a :: real) * 2251799813685248 \<le> 3039929748475084 * of_int b" by simp
        then show ?thesis using bpos by (simp add: field_simps)
      qed
      then have "fl (of_int a / of_int b) \<le> fl (3039929748475084 / 2251799813685248)" by (rule fl_mono)
      then have "fl (of_int a / of_int b) \<le> 3039929748475084 / 2251799813685248"
        by (simp only: below_1_35_representable)
      with L show False by (simp add: mb lit_1_35_value)
    qed
  qed
qed

text \<open>
  C3.  With mode \<open>Auto\<close>, an image of positive width \<open>w\<close> and height \<open>h\<close> (each below
  \<open>2 ^ 31\<close>, the sizes the image library can hold) is split vertically iff
  \<open>w / h \<ge> 1.35\<close>, else horizontally iff \<open>h / w \<ge> 1.35\<close>, else it is skipped as a single
  page; here the quotients and \<open>1.35\<close> are the exact rationals, and the float comparison of
  the script decides the same.  The comparison is inclusive: 135 by 100 is split vertically,
  134 by 100 is a single page.  With mode \<open>Vertical\<close> or \<open>Horizontal\<close> no ratio is tested and
  that direction is taken.
\<close>

theorem orientation_classifier:
  "(0 < w \<and> w < 2 ^ 31 \<and> 0 < h \<and> h < 2 ^ 31 \<longrightarrow>
      select_mode Auto w h =
        (if (135 / 100 :: real) \<le> of_int w / of_int h then Some Vertical
         else if (135 / 100 :: real) \<le> of_int h / of_int w then Some Horizontal
         else None)
      \<and> select_mode Auto w h =
        (if lit_1_35 \<le> fl (of_int w / of_int (max h 1)) then Some Vertical
         else if lit_1_35 \<le> fl (of_int h / of_int (max w 1)) then Some Horizontal
         else None))
   \<and> select_mode Auto 135 100 = Some Vertical
   \<and> select_mode Auto 134 100 = None
   \<and> select_mode Vertical w h = Some Vertical
   \<and> select_mode Horizontal w h = Some Horizontal"
proof (intro conjI impI)
  assume a: "0 < w \<and> w < 2 ^ 31 \<and> 0 < h \<and> h < 2 ^ 31"
  then show "select_mode Auto w h =
        (if (135 / 100 :: real) \<le> of_int w / of_int h then Some Vertical
         else if (135 / 100 :: real) \<le> of_int h / of_int w then Some Horizontal
         else None)"
    using ratio_test_exact [of w h] ratio_test_exact [of h w]
    by (simp add: select_mode_def is_probably_double_page_def)
  show "select_mode Auto w h =
        (if lit_1_35 \<le> fl (of_int w / of_int (max h 1)) then Some Vertical
         else if lit_1_35 \<le> fl (of_int h / of_int (max w 1)) then Some Horizontal
         else None)"
    by (simp add: select_mode_def is_probably_double_page_def)
next
  show "select_mode Auto 135 100 = Some Vertical"
    using ratio_test_exact [of 135 100]
    by (simp add: select_mode_def is_probably_double_page_def)
next
  show "select_mode Auto 134 100 = None"
    using ratio_test_exact [of 134 100] ratio_test_exact [of 100 134]
    by (simp add: select_mode_def is_probably_double_page_def)
qed (simp_all add: select_mode_def)

text \<open>The theorem at 2000 by 1000, at 1000 by 2000 and at 1000 by 1000.\<close>

theorem orientation_classifier_witness:
  "select_mode Auto 2000 1000 = Some Vertical
   \<and> select_mode Auto 1000 2000 = Some Horizontal
   \<and> select_mode Auto 1000 1000 = None"
  using orientation_classifier [where w = 2000 and h = 1000]
    orientation_classifier [where w = 1000 and h = 2000]
    orientation_classifier [where w = 1000 and h = 1000]
  by simp

section \<open>The downsampler\<close>

lemma py_int_floor: "0 \<le> x \<Longrightarrow> py_int x = \<lfloor>x\<rfloor>"
  by (simp add: py_int_def)

lemma max_one_py_int: "max 1 (py_int x) = max 1 \<lfloor>x\<rfloor>"
proof (cases "0 \<le> x")
  case True
  then show ?thesis by (simp add: py_int_def)
next
  case False
  then have "\<lceil>x\<rceil> \<le> 0" "\<lfloor>x\<rfloor> \<le> 0" by (simp_all add: ceiling_le_iff floor_le_iff)
  then show ?thesis using False by (simp add: py_int_def)
qed

lemma py_int_mono: "x \<le> y \<Longrightarrow> py_int x \<le> py_int y"
proof -
  assume xy: "x \<le> y"
  have "\<lfloor>x\<rfloor> \<le> \<lceil>x\<rceil>" by (rule floor_le_ceiling)
  consider "0 \<le> x" | "x < 0" "0 \<le> y" | "y < 0" by linarith
  then show ?thesis
  proof cases
    case 1
    then show ?thesis using xy by (simp add: py_int_def floor_mono)
  next
    case 2
    then have "\<lceil>x\<rceil> \<le> 0" "0 \<le> \<lfloor>y\<rfloor>" by (simp_all add: ceiling_le_iff)
    then have "\<lceil>x\<rceil> \<le> \<lfloor>y\<rfloor>" by linarith
    then show ?thesis using 2 by (simp add: py_int_def)
  next
    case 3
    then show ?thesis using xy by (simp add: py_int_def ceiling_mono)
  qed
qed

lemma py_int_of_int [simp]: "py_int (of_int n) = n"
  by (simp add: py_int_def)

lemma one_plus_ulp_representable: "fl (1 + 1 / 2 ^ 52) = 1 + 1 / 2 ^ 52"
proof -
  have "(of_int (2 ^ 52 + 1) :: real) * 2 powi (- 52) = 1 + 1 / 2 ^ 52"
    by (simp add: power_int_minus_divide field_simps)
  then show ?thesis using fl_representable [of "2 ^ 52 + 1" "- 52"] by simp
qed

text \<open>The scale of an image larger than \<open>max_dim\<close> is above \<open>1\<close>.\<close>

lemma scale_gt_one:
  assumes "0 < D" and "D < 2 ^ 31" and "D < m"
  shows "1 < fl (float_of_int m / float_of_int D)"
proof -
  have Dx: "float_of_int D = of_int D" using assms by (intro float_of_int_exact) simp
  have D1: "\<bar>D + 1\<bar> \<le> 2 ^ 53" using assms by simp
  have "float_of_int (D + 1) \<le> float_of_int m" using assms by (intro float_of_int_mono) simp
  then have M: "of_int D + 1 \<le> float_of_int m" by (simp add: float_of_int_exact [OF D1])
  have Dpos: "(0::real) < of_int D" using assms by simp
  have "(of_int D :: real) < of_int (2 ^ 31)" using assms(2) by (simp only: of_int_less_iff)
  then have "(of_int D :: real) \<le> 2 ^ 52" by simp
  then have "1 / 2 ^ 52 \<le> 1 / (of_int D :: real)" using Dpos by (simp add: field_simps)
  then have "1 + 1 / 2 ^ 52 \<le> (of_int D + 1) / (of_int D :: real)" using Dpos by (simp add: field_simps)
  also have "\<dots> \<le> float_of_int m / of_int D" using M Dpos by (simp add: divide_right_mono)
  finally have "fl (1 + 1 / 2 ^ 52) \<le> fl (float_of_int m / of_int D)" by (rule fl_mono)
  then have "1 + 1 / 2 ^ 52 \<le> fl (float_of_int m / of_int D)"
    by (simp only: one_plus_ulp_representable)
  moreover have "(1::real) < 1 + 1 / 2 ^ 52" by simp
  ultimately have "1 < fl (float_of_int m / of_int D)" by (rule less_le_trans [rotated])
  then show ?thesis by (simp only: Dx)
qed

lemma scale_le_one:
  assumes "0 < D" and "m \<le> D"
  shows "fl (float_of_int m / float_of_int D) \<le> 1"
proof -
  have "1 \<le> float_of_int D" using assms by (intro float_of_int_ge_one) simp
  moreover have "float_of_int m \<le> float_of_int D" using assms by (intro float_of_int_mono)
  ultimately have "float_of_int m / float_of_int D \<le> 1" by (simp add: field_simps)
  then have "fl (float_of_int m / float_of_int D) \<le> fl 1" by (rule fl_mono)
  then show ?thesis by simp
qed

lemma downsample_small:
  assumes "0 < max_dim" and "max (width img) (height img) \<le> max_dim"
  shows "downsample_for_analysis r img max_dim = Inr (img, 1)"
proof -
  have "float_of_int max_dim \<noteq> 0" using float_of_int_ge_one [of max_dim] assms by simp
  then show ?thesis using scale_le_one [OF assms]
    by (simp add: downsample_for_analysis_def Let_def float_div_def)
qed

lemma downsample_large:
  assumes "0 < max_dim" and "max_dim < 2 ^ 31" and "max_dim < max (width img) (height img)"
  defines "scale \<equiv> fl (float_of_int (max (width img) (height img)) / float_of_int max_dim)"
  defines "new_w \<equiv> max 1 \<lfloor>fl (float_of_int (width img) / scale)\<rfloor>"
  defines "new_h \<equiv> max 1 \<lfloor>fl (float_of_int (height img) / scale)\<rfloor>"
  shows "1 < scale"
    and "downsample_for_analysis r img max_dim
          = Inr (\<lparr>width = new_w, height = new_h, pixel = r img new_w new_h\<rparr>, scale)"
proof -
  show s1: "1 < scale" unfolding scale_def using assms(1-3) by (rule scale_gt_one)
  have "float_of_int max_dim \<noteq> 0" using float_of_int_ge_one [of max_dim] assms by simp
  moreover have "scale \<noteq> 0" "\<not> scale \<le> 1" using s1 by simp_all
  moreover have "0 < new_w" "0 < new_h" by (simp_all add: new_w_def new_h_def)
  ultimately show "downsample_for_analysis r img max_dim
          = Inr (\<lparr>width = new_w, height = new_h, pixel = r img new_w new_h\<rparr>, scale)"
    by (simp add: downsample_for_analysis_def Let_def float_div_def scale_def [symmetric]
        max_one_py_int new_w_def [symmetric] new_h_def [symmetric] resize_def)
qed

lemma downsample_scale_ge_one:
  assumes "downsample_for_analysis r img max_dim = Inr (small, s)"
  shows "1 \<le> s"
  using assms
  by (auto simp: downsample_for_analysis_def Let_def float_div_def bind_err_def resize_def
      split: if_splits sum.splits)

lemma half_above_representable:
  assumes "0 < D" and "D < 2 ^ 31"
  shows "fl (of_int D + 1 / 2) = of_int D + 1 / 2"
proof -
  have e: "(of_int (2 * D + 1) :: real) * 2 powi (- 1) = of_int D + 1 / 2"
    by (simp add: field_simps)
  have b: "\<bar>2 * D + 1\<bar> \<le> 2 ^ 53" using assms by simp
  have "fl (of_int (2 * D + 1) * 2 powi (- 1)) = of_int (2 * D + 1) * 2 powi (- 1)"
    using b by (rule fl_representable) simp
  then show ?thesis by (simp only: e)
qed

text \<open>A resampled dimension does not exceed \<open>max_dim\<close>, although the scale is a rounded quotient.\<close>

lemma resampled_dim_le:
  assumes "0 < D" and "D < 2 ^ 31" and "D < m" and "w \<le> m"
  shows "\<lfloor>fl (float_of_int w / fl (float_of_int m / float_of_int D))\<rfloor> \<le> D"
proof -
  define M where "M = float_of_int m"
  define q where "q = M / of_int D"
  define s where "s = fl q"
  have Dx: "float_of_int D = of_int D" using assms by (intro float_of_int_exact) simp
  have Dpos: "(0::real) < of_int D" using assms by simp
  have D1: "\<bar>D + 1\<bar> \<le> 2 ^ 53" using assms by simp
  have "float_of_int (D + 1) \<le> M" unfolding M_def using assms by (intro float_of_int_mono) simp
  then have M: "of_int D + 1 \<le> M" by (simp add: float_of_int_exact [OF D1])
  then have Mpos: "0 < M" using Dpos by linarith
  have q1: "1 \<le> q" unfolding q_def using M Dpos by (simp add: field_simps)
  have "(2::real) powi (- 1022) \<le> 2 powi 0" by (rule two_powi_mono) simp
  then have "2 powi (- 1022) \<le> q" using q1 by simp
  then have "\<bar>fl q - q\<bar> \<le> q / 2 ^ 53" by (rule fl_rel_error)
  then have "q - q / 2 ^ 53 \<le> fl q" by linarith
  moreover have "q * (1 - 1 / 2 ^ 53) = q - q / 2 ^ 53" by (simp add: algebra_simps)
  ultimately have slow: "q * (1 - 1 / 2 ^ 53) \<le> s" unfolding s_def by simp
  have "0 < q * (1 - 1 / 2 ^ 53)" using q1 by simp
  then have spos: "0 < s" using slow by linarith
  have "float_of_int w \<le> M" unfolding M_def using assms(4) by (rule float_of_int_mono)
  then have "float_of_int w / s \<le> M / s" using spos by (simp add: divide_right_mono)
  also have "M / s \<le> M / (q * (1 - 1 / 2 ^ 53))"
    using slow Mpos \<open>0 < q * (1 - 1 / 2 ^ 53)\<close> by (intro divide_left_mono) simp_all
  also have "\<dots> = of_int D / (1 - 1 / 2 ^ 53)"
    using Mpos Dpos by (simp add: q_def)
  also have "\<dots> \<le> of_int D + 1 / 2"
  proof -
    have "(of_int D :: real) < of_int (2 ^ 31)" using assms(2) by (simp only: of_int_less_iff)
    then have "(of_int D :: real) < 2 ^ 31" by simp
    then have "(of_int D :: real) \<le> (of_int D + 1 / 2) * (1 - 1 / 2 ^ 53)"
      by (simp add: algebra_simps)
    then show ?thesis by (simp add: pos_divide_le_eq)
  qed
  finally have "fl (float_of_int w / s) \<le> fl (of_int D + 1 / 2)" by (rule fl_mono)
  then have "fl (float_of_int w / s) \<le> of_int D + 1 / 2"
    by (simp only: half_above_representable [OF assms(1,2)])
  then have "fl (float_of_int w / s) < of_int (D + 1)" by simp
  then have "\<lfloor>fl (float_of_int w / s)\<rfloor> < D + 1" by (simp only: floor_less_iff)
  then show ?thesis by (simp add: s_def q_def M_def Dx)
qed

text \<open>
  C4.  For a positive \<open>max_dim\<close> below \<open>2 ^ 31\<close> (it is 900 in every call of the script): an
  image with \<open>max(w, h) \<le> max_dim\<close> is returned unchanged with scale exactly \<open>1\<close>; a larger
  one (with dimensions below \<open>2 ^ 31\<close>) is resampled to the dimensions \<open>w / scale\<close> and
  \<open>h / scale\<close>, rounded down but not below \<open>1\<close>, where \<open>scale\<close> is the float quotient
  \<open>max(w, h) / max_dim\<close>, and that scale is above \<open>1\<close>; whenever the downsampler returns,
  the scale it returns is at least \<open>1\<close>.
\<close>

theorem downsampler_never_upscales:
  "(0 < max_dim \<and> max_dim < 2 ^ 31 \<and> max (width img) (height img) \<le> max_dim
      \<longrightarrow> downsample_for_analysis r img max_dim = Inr (img, 1))
   \<and> (0 < max_dim \<and> max_dim < 2 ^ 31 \<and> max_dim < max (width img) (height img)
        \<and> width img < 2 ^ 31 \<and> height img < 2 ^ 31
      \<longrightarrow> (let scale = fl (float_of_int (max (width img) (height img)) / float_of_int max_dim);
               new_w = max 1 \<lfloor>fl (float_of_int (width img) / scale)\<rfloor>;
               new_h = max 1 \<lfloor>fl (float_of_int (height img) / scale)\<rfloor>
           in 1 < scale
              \<and> downsample_for_analysis r img max_dim
                  = Inr (\<lparr>width = new_w, height = new_h, pixel = r img new_w new_h\<rparr>, scale)))
   \<and> (downsample_for_analysis r img max_dim = Inr (small, s) \<longrightarrow> 1 \<le> s)"
proof (intro conjI impI)
  assume "0 < max_dim \<and> max_dim < 2 ^ 31 \<and> max (width img) (height img) \<le> max_dim"
  then show "downsample_for_analysis r img max_dim = Inr (img, 1)"
    by (intro downsample_small) simp_all
next
  assume a: "0 < max_dim \<and> max_dim < 2 ^ 31 \<and> max_dim < max (width img) (height img)
        \<and> width img < 2 ^ 31 \<and> height img < 2 ^ 31"
  then have a1: "0 < max_dim" and a2: "max_dim < 2 ^ 31"
    and a3: "max_dim < max (width img) (height img)" by simp_all
  show "let scale = fl (float_of_int (max (width img) (height img)) / float_of_int max_dim);
            new_w = max 1 \<lfloor>fl (float_of_int (width img) / scale)\<rfloor>;
            new_h = max 1 \<lfloor>fl (float_of_int (height img) / scale)\<rfloor>
        in 1 < scale
           \<and> downsample_for_analysis r img max_dim
               = Inr (\<lparr>width = new_w, height = new_h, pixel = r img new_w new_h\<rparr>, scale)"
    unfolding Let_def using downsample_large [OF a1 a2 a3] by blast
next
  assume "downsample_for_analysis r img max_dim = Inr (small, s)"
  then show "1 \<le> s" by (rule downsample_scale_ge_one)
qed

lemma eval_1800: "fl (float_of_int 1800 / float_of_int 900) = 2"
  "fl (float_of_int 1800 / 2) = 900" "fl (float_of_int 900 / 2) = 450"
  by code_simp+

text \<open>The theorem at an 800 by 600 image, which is kept, and at an 1800 by 900 image, which is halved.\<close>

theorem downsampler_never_upscales_witness:
  "downsample_for_analysis (bilinear grey_lib) (solid 800 600 (0, 0, 0)) 900 = Inr (solid 800 600 (0, 0, 0), 1)
   \<and> downsample_for_analysis (bilinear grey_lib) (solid 1800 900 (0, 0, 0)) 900 = Inr (solid 900 450 (0, 0, 0), 2)"
  using downsampler_never_upscales [where max_dim = 900 and img = "solid 800 600 (0, 0, 0)"
      and r = "bilinear grey_lib"]
    downsampler_never_upscales [where max_dim = 900 and img = "solid 1800 900 (0, 0, 0)"
      and r = "bilinear grey_lib"]
  by (simp add: eval_1800 grey_lib_def solid_def)

text \<open>
  C10.  Whenever the downsampler resamples (it returns a scale above \<open>1\<close>), both dimensions
  of the image it returns lie in \<open>[1, max_dim]\<close>: each is \<open>max(1, \<lfloor>dimension / scale\<rfloor>)\<close>
  with \<open>scale\<close> the float quotient \<open>max(w, h) / max_dim\<close>, and the two roundings of the float
  computation cannot push the quotient to \<open>max_dim + 1\<close>.
\<close>

theorem resampled_size_bounds:
  "0 < max_dim \<and> max_dim < 2 ^ 31 \<and> width img < 2 ^ 31 \<and> height img < 2 ^ 31
     \<and> downsample_for_analysis r img max_dim = Inr (small, scale) \<and> 1 < scale
   \<longrightarrow> 1 \<le> width small \<and> width small \<le> max_dim
       \<and> 1 \<le> height small \<and> height small \<le> max_dim
       \<and> scale = fl (float_of_int (max (width img) (height img)) / float_of_int max_dim)
       \<and> width small = max 1 \<lfloor>fl (float_of_int (width img) / scale)\<rfloor>
       \<and> height small = max 1 \<lfloor>fl (float_of_int (height img) / scale)\<rfloor>"
proof
  assume a: "0 < max_dim \<and> max_dim < 2 ^ 31 \<and> width img < 2 ^ 31 \<and> height img < 2 ^ 31
     \<and> downsample_for_analysis r img max_dim = Inr (small, scale) \<and> 1 < scale"
  then have a1: "0 < max_dim" and a2: "max_dim < 2 ^ 31"
    and d: "downsample_for_analysis r img max_dim = Inr (small, scale)" and s1: "1 < scale"
    by simp_all
  have big: "max_dim < max (width img) (height img)"
  proof (rule ccontr)
    assume "\<not> max_dim < max (width img) (height img)"
    then have "max (width img) (height img) \<le> max_dim" by linarith
    with a1 have "downsample_for_analysis r img max_dim = Inr (img, 1)"
      by (rule downsample_small)
    with d s1 show False by simp
  qed
  define m where "m = max (width img) (height img)"
  note L = downsample_large(2) [OF a1 a2 big, of r]
  from L d have sc: "scale = fl (float_of_int m / float_of_int max_dim)"
    and sm: "small = \<lparr>width = max 1 \<lfloor>fl (float_of_int (width img) / scale)\<rfloor>,
                     height = max 1 \<lfloor>fl (float_of_int (height img) / scale)\<rfloor>,
                     pixel = r img (max 1 \<lfloor>fl (float_of_int (width img) / scale)\<rfloor>)
                               (max 1 \<lfloor>fl (float_of_int (height img) / scale)\<rfloor>)\<rparr>"
    by (simp_all add: m_def)
  have "\<lfloor>fl (float_of_int (width img) / scale)\<rfloor> \<le> max_dim"
    unfolding sc using a1 a2 big by (intro resampled_dim_le) (simp_all add: m_def)
  moreover have "\<lfloor>fl (float_of_int (height img) / scale)\<rfloor> \<le> max_dim"
    unfolding sc using a1 a2 big by (intro resampled_dim_le) (simp_all add: m_def)
  ultimately show "1 \<le> width small \<and> width small \<le> max_dim
       \<and> 1 \<le> height small \<and> height small \<le> max_dim
       \<and> scale = fl (float_of_int (max (width img) (height img)) / float_of_int max_dim)
       \<and> width small = max 1 \<lfloor>fl (float_of_int (width img) / scale)\<rfloor>
       \<and> height small = max 1 \<lfloor>fl (float_of_int (height img) / scale)\<rfloor>"
    using a1 sc by (simp add: sm m_def)
qed

text \<open>The theorem at an 1800 by 900 image, resampled to 900 by 450.\<close>

theorem resampled_size_bounds_witness:
  "downsample_for_analysis (bilinear grey_lib) (solid 1800 900 (0, 0, 0)) 900
     = Inr (solid 900 450 (0, 0, 0), 2)
   \<and> (1::int) \<le> 900 \<and> (900::int) \<le> 900 \<and> (1::int) \<le> 450 \<and> (450::int) \<le> 900"
proof -
  have d: "downsample_for_analysis (bilinear grey_lib) (solid 1800 900 (0, 0, 0)) 900
     = Inr (solid 900 450 (0, 0, 0), 2)"
    using downsample_large(2) [of 900 "solid 1800 900 (0, 0, 0)" "bilinear grey_lib"]
    by (simp add: eval_1800 grey_lib_def solid_def)
  show ?thesis
    using resampled_size_bounds [where max_dim = 900 and r = "bilinear grey_lib"
        and img = "solid 1800 900 (0, 0, 0)" and small = "solid 900 450 (0, 0, 0)" and scale = 2] d
    by simp
qed

section \<open>The search range\<close>

lemma int_div_less:
  fixes a k n :: int
  assumes "0 < k" and "a < n * k"
  shows "a div k < n"
proof -
  have "a div k * k = a - a mod k" by (simp add: minus_mod_eq_div_mult)
  moreover have "0 \<le> a mod k" using assms(1) by simp
  ultimately have "a div k * k \<le> a" by linarith
  with assms(2) have "a div k * k < n * k" by linarith
  then show ?thesis using assms(1) by (simp add: mult_less_cancel_right)
qed

lemma int_div_mult_le:
  fixes a k :: int
  assumes "0 < k"
  shows "a div k * k \<le> a"
proof -
  have "a div k * k = a - a mod k" by (simp add: minus_mod_eq_div_mult)
  moreover have "0 \<le> a mod k" using assms(1) by simp
  ultimately show ?thesis by linarith
qed

text \<open>The float quotient \<^verbatim>\<open>d / 500\<close> truncates to the integer quotient.\<close>

lemma stride_exact:
  assumes "0 \<le> d" and "d < 2 ^ 31"
  shows "stride d = max 1 (d div 500)"
proof -
  define k where "k = d div 500"
  have k0: "0 \<le> k" using assms(1) by (simp add: k_def pos_imp_zdiv_nonneg_iff)
  have "k * 500 \<le> d" unfolding k_def using int_div_mult_le [of 500 d] by simp
  then have kd: "k \<le> d" using k0 by linarith
  have kb: "\<bar>k\<bar> \<le> 2 ^ 53" using k0 kd assms(2) by simp
  have dk: "d = k * 500 + d mod 500" by (simp add: k_def)
  have m: "0 \<le> d mod 500" "d mod 500 \<le> 499" by simp_all
  have "(of_int d :: real) = of_int (k * 500 + d mod 500)" using dk by simp
  then have dr: "(of_int d :: real) = of_int k * 500 + of_int (d mod 500)" by simp
  have "(of_int (0::int) :: real) \<le> of_int (d mod 500)" using m(1) by (simp only: of_int_le_iff)
  then have m0: "(0 :: real) \<le> of_int (d mod 500)" by simp
  have "(of_int (d mod 500) :: real) \<le> of_int 499" using m(2) by (simp only: of_int_le_iff)
  then have m1: "(of_int (d mod 500) :: real) \<le> 499" by simp
  have lo: "of_int k \<le> (of_int d :: real) / 500" using dr m0 by simp
  have hi: "(of_int d :: real) / 500 \<le> of_int k + 1023 / 1024" using dr m1 by simp
  have rep: "fl (of_int k + 1023 / 1024) = of_int k + 1023 / 1024"
  proof -
    have e: "(of_int (1024 * k + 1023) :: real) * 2 powi (- 10) = of_int k + 1023 / 1024"
      by (simp add: power_int_minus_divide field_simps)
    have b: "\<bar>1024 * k + 1023\<bar> \<le> 2 ^ 53" using k0 kd assms(2) by simp
    have "fl (of_int (1024 * k + 1023) * 2 powi (- 10)) = of_int (1024 * k + 1023) * 2 powi (- 10)"
      using b by (rule fl_representable) simp
    then show ?thesis by (simp only: e)
  qed
  have f1: "of_int k \<le> fl (of_int d / 500)" using lo kb by (rule fl_ge_int)
  have "fl (of_int d / 500) \<le> fl (of_int k + 1023 / 1024)" using hi by (rule fl_mono)
  then have f2: "fl (of_int d / 500) < of_int k + 1" by (simp only: rep)
  have "0 \<le> fl (of_int d / 500)" using assms(1) by (intro fl_nonneg) simp
  then have "py_int (fl (of_int d / 500)) = \<lfloor>fl (of_int d / 500)\<rfloor>" by (rule py_int_floor)
  also have "\<dots> = k" using f1 f2 by (simp add: floor_eq_iff)
  finally show ?thesis by (simp add: stride_def k_def)
qed

lemma stride_pos: "1 \<le> stride d"
  by (simp add: stride_def)

lemma py_range_pos:
  "0 < step \<Longrightarrow> py_range start stop step
     = Inr (map (\<lambda>k. start + int k * step) [0..<nat ((stop - start + step - 1) div step)])"
  by (simp add: py_range_def)

lemma py_range_candidates:
  "py_range (search_start d s) (search_stop d s + 1) (stride d) = Inr (candidates d s)"
  using stride_pos [of d] by (simp add: candidates_def py_range_pos)

lemma candidates_eq:
  "candidates d s = map (\<lambda>k. search_start d s + int k * stride d)
     [0..<nat ((search_stop d s - search_start d s + stride d) div stride d)]"
proof -
  have e: "search_stop d s + 1 - search_start d s + stride d - 1
      = search_stop d s - search_start d s + stride d" by simp
  have "0 < stride d" using stride_pos [of d] by simp
  then show ?thesis unfolding candidates_def by (simp only: py_range_pos e sum.case)
qed

lemma length_candidates:
  "length (candidates d s) = nat ((search_stop d s - search_start d s + stride d) div stride d)"
  by (simp add: candidates_eq)

lemma candidates_range:
  assumes "x \<in> set (candidates d s)"
  shows "search_start d s \<le> x" and "x \<le> search_stop d s"
proof -
  define a where "a = search_start d s"
  define b where "b = search_stop d s"
  define k where "k = stride d"
  have kpos: "0 < k" using stride_pos [of d] by (simp add: k_def)
  from assms obtain i where i: "i < nat ((b - a + k) div k)" and x: "x = a + int i * k"
    by (auto simp: candidates_eq a_def b_def k_def)
  have "0 \<le> int i * k" using kpos by simp
  then show "search_start d s \<le> x" by (simp add: x a_def)
  have "int i + 1 \<le> (b - a + k) div k" using i by linarith
  then have "(int i + 1) * k \<le> (b - a + k) div k * k" using kpos by (simp add: mult_right_mono)
  also have "\<dots> \<le> b - a + k" using kpos by (rule int_div_mult_le)
  finally have "int i * k \<le> b - a" by (simp add: algebra_simps)
  then show "x \<le> search_stop d s" by (simp add: x b_def)
qed

lemma search_window_bounds: "1 \<le> search_start d s" "search_stop d s \<le> d - 2"
  by (simp_all add: search_start_def search_stop_def)

lemma length_candidates_le: "int (length (candidates d s)) \<le> max 0 (d - 2)"
proof -
  define a where "a = search_start d s"
  define b where "b = search_stop d s"
  define k where "k = stride d"
  have kpos: "1 \<le> k" using stride_pos [of d] by (simp add: k_def)
  have ab: "b - a \<le> d - 3" using search_window_bounds [of d s] by (simp add: a_def b_def)
  have "(b - a + k) div k < max 1 (d - 1)"
  proof (rule int_div_less)
    show "0 < k" using kpos by simp
    have "b - a + k \<le> d - 3 + k" using ab by simp
    also have "\<dots> < max 1 (d - 1) * k"
    proof (cases "2 \<le> d")
      case True
      then have "(d - 2) * 1 \<le> (d - 2) * k" using kpos by (intro mult_left_mono) simp_all
      then show ?thesis using True by (simp add: algebra_simps)
    next
      case False
      then show ?thesis using kpos by simp
    qed
    finally show "b - a + k < max 1 (d - 1) * k" .
  qed
  then have "int (nat ((b - a + k) div k)) \<le> max 0 (d - 2)" by arith
  then show ?thesis by (simp only: length_candidates a_def b_def k_def)
qed

lemma length_candidates_lt_1000:
  assumes "0 \<le> d" and "d < 2 ^ 31"
  shows "length (candidates d s) < 1000"
proof -
  define a where "a = search_start d s"
  define b where "b = search_stop d s"
  define k where "k = stride d"
  have k: "k = max 1 (d div 500)" using assms by (simp add: k_def stride_exact)
  have kpos: "1 \<le> k" by (simp add: k)
  have ab: "b - a \<le> d - 3" using search_window_bounds [of d s] by (simp add: a_def b_def)
  have dk: "d < 500 * k + 500"
  proof -
    have "d = d div 500 * 500 + d mod 500" by simp
    moreover have "d mod 500 < 500" by simp
    moreover have "d div 500 \<le> k" by (simp add: k)
    ultimately show ?thesis by linarith
  qed
  have "(b - a + k) div k < 1000"
  proof (rule int_div_less)
    show "0 < k" using kpos by simp
    show "b - a + k < 1000 * k" using ab dk kpos by linarith
  qed
  then have "nat ((b - a + k) div k) < 1000" by arith
  then show ?thesis by (simp only: length_candidates a_def b_def k_def)
qed

text \<open>
  C8 (as amended).  For every search axis of length \<open>d\<close> (non-negative, below \<open>2 ^ 31\<close>)
  and every search fraction in \<open>(0, 1)\<close>, the stride of the locator is \<open>max(1, d div 500)\<close>, the positions
  its loop visits are the strided positions of the search range
  \<open>[max(1, mid - half_window), min(d - 2, mid + half_window)]\<close>, and there are fewer than
  \<open>1000\<close> of them, and no more than \<open>d - 2\<close>, whatever the resolution.  On an axis of at most
  900 pixels, which is all the downsampler lets through, the stride is \<open>1\<close>.
\<close>

theorem search_cost_bound:
  "0 \<le> d \<and> d < 2 ^ 31 \<and> fraction s \<longrightarrow>
     stride d = max 1 (d div 500)
     \<and> py_range (search_start d s) (search_stop d s + 1) (stride d) = Inr (candidates d s)
     \<and> length (candidates d s) < 1000
     \<and> int (length (candidates d s)) \<le> max 0 (d - 2)
     \<and> (\<forall>x\<in>set (candidates d s).
           max 1 (d div 2 - half_window d s) \<le> x \<and> x \<le> min (d - 2) (d div 2 + half_window d s))
     \<and> (d \<le> 900 \<longrightarrow> stride d = 1)"
proof
  assume a: "0 \<le> d \<and> d < 2 ^ 31 \<and> fraction s"
  then have s: "stride d = max 1 (d div 500)" by (intro stride_exact) simp_all
  have "d \<le> 900 \<longrightarrow> d div 500 \<le> 1"
  proof
    assume "d \<le> 900"
    then have "d div 500 < 2" by (intro int_div_less) simp_all
    then show "d div 500 \<le> 1" by simp
  qed
  then have "d \<le> 900 \<longrightarrow> stride d = 1" by (simp add: s)
  then show "stride d = max 1 (d div 500)
     \<and> py_range (search_start d s) (search_stop d s + 1) (stride d) = Inr (candidates d s)
     \<and> length (candidates d s) < 1000
     \<and> int (length (candidates d s)) \<le> max 0 (d - 2)
     \<and> (\<forall>x\<in>set (candidates d s).
           max 1 (d div 2 - half_window d s) \<le> x \<and> x \<le> min (d - 2) (d div 2 + half_window d s))
     \<and> (d \<le> 900 \<longrightarrow> stride d = 1)"
    using a s py_range_candidates [of d s] length_candidates_lt_1000 [of d s]
      length_candidates_le [of d s] candidates_range [of _ d s]
    unfolding search_start_def [symmetric] search_stop_def [symmetric]
    by blast
qed

lemma half_window_2000: "half_window 2000 default_search = 120"
  by code_simp

text \<open>The theorem at an axis of 2000 pixels with the default search fraction \<open>0.12\<close>.\<close>

theorem search_cost_bound_witness:
  "stride 2000 = 4 \<and> length (candidates 2000 default_search) = 61"
  using search_cost_bound [where d = 2000 and s = default_search] default_fractions(1)
  unfolding length_candidates search_start_def search_stop_def half_window_2000
  by simp

lemma half_window_900: "half_window 900 (fl (999 / 1000)) = 449"
  by code_simp

text \<open>
  An axis of 900 pixels searched with the fraction \<open>0.999\<close>: the range is \<open>[1, 898]\<close>, the
  stride is \<open>1\<close>, and the loop scores 898 positions, not about 500.
\<close>

lemma fraction_999: "fraction (fl (999 / 1000))"
  unfolding fraction_def by code_simp

theorem wide_search_counterexample:
  "fraction (fl (999 / 1000)) \<and> length (candidates 900 (fl (999 / 1000))) = 898"
  unfolding length_candidates search_start_def search_stop_def half_window_900
  using fraction_999 by (simp add: stride_exact)

section \<open>The split locators\<close>

text \<open>
  The two locators are the analysis image, then the chosen position, then the mapping back
  by the scale.
\<close>

lemma find_split_vertical_parts:
  "find_split_vertical lib img search band =
     bind_err (analysis lib img) (\<lambda>(gray, scale).
       bind_err (chosen_vertical gray search band) (\<lambda>c.
         Inr (py_int (float_mul (float_of_int c) scale))))"
proof (cases "downsample_for_analysis (bilinear lib) (convert (rgb_of lib) img) 900")
  case (Inl e)
  then show ?thesis by (simp add: find_split_vertical_def analysis_def)
next
  case (Inr p)
  obtain small scale where p: "p = (small, scale)" by (cases p)
  define gray where "gray = convert (luma lib) small"
  have r: "py_range (max 1 (width gray div 2 - py_int (fl (float_mul (float_of_int (width gray)) search / 2))))
             (min (width gray - 2) (width gray div 2 + py_int (fl (float_mul (float_of_int (width gray)) search / 2))) + 1)
             (max 1 (py_int (fl (of_int (width gray) / 500))))
           = Inr (candidates (width gray) search)"
    using py_range_candidates [of "width gray" search]
    by (simp only: search_start_def search_stop_def half_window_def stride_def)
  show ?thesis
    unfolding find_split_vertical_def analysis_def chosen_vertical_def pick_best_def Inr p
    by (simp add: Let_def gray_def [symmetric] r margin_lo_def margin_hi_def band_px_of_def
        bind_err_def split: sum.splits prod.splits)
qed

lemma find_split_horizontal_parts:
  "find_split_horizontal lib img search band =
     bind_err (analysis lib img) (\<lambda>(gray, scale).
       bind_err (chosen_horizontal gray search band) (\<lambda>c.
         Inr (py_int (float_mul (float_of_int c) scale))))"
proof (cases "downsample_for_analysis (bilinear lib) (convert (rgb_of lib) img) 900")
  case (Inl e)
  then show ?thesis by (simp add: find_split_horizontal_def analysis_def)
next
  case (Inr p)
  obtain small scale where p: "p = (small, scale)" by (cases p)
  define gray where "gray = convert (luma lib) small"
  have r: "py_range (max 1 (height gray div 2 - py_int (fl (float_mul (float_of_int (height gray)) search / 2))))
             (min (height gray - 2) (height gray div 2 + py_int (fl (float_mul (float_of_int (height gray)) search / 2))) + 1)
             (max 1 (py_int (fl (of_int (height gray) / 500))))
           = Inr (candidates (height gray) search)"
    using py_range_candidates [of "height gray" search]
    by (simp only: search_start_def search_stop_def half_window_def stride_def)
  show ?thesis
    unfolding find_split_horizontal_def analysis_def chosen_horizontal_def pick_best_def Inr p
    by (simp add: Let_def gray_def [symmetric] r margin_lo_def margin_hi_def band_px_of_def
        bind_err_def split: sum.splits prod.splits)
qed

text \<open>The loop keeps the first position of least score.\<close>

lemma search_loop_some:
  assumes "\<forall>x\<in>set xs. score x = Inr (f x)"
  shows "search_loop score xs (b, Some v) = Inr (b, Some v) \<and> (\<forall>x\<in>set xs. v \<le> f x)
    \<or> (\<exists>ys c zs. xs = ys @ c # zs \<and> f c < v \<and> (\<forall>y\<in>set ys. f c < f y) \<and> (\<forall>z\<in>set zs. f c \<le> f z)
          \<and> search_loop score xs (b, Some v) = Inr (c, Some (f c)))"
  using assms
proof (induction xs arbitrary: b v)
  case Nil
  then show ?case by simp
next
  case (Cons x xs)
  have sx: "score x = Inr (f x)" and rest: "\<forall>x\<in>set xs. score x = Inr (f x)"
    using Cons.prems by simp_all
  show ?case
  proof (cases "f x < v")
    case True
    then have step: "search_loop score (x # xs) (b, Some v) = search_loop score xs (x, Some (f x))"
      by (simp add: sx)
    from Cons.IH [OF rest, of x "f x"] show ?thesis
    proof
      assume k: "search_loop score xs (x, Some (f x)) = Inr (x, Some (f x)) \<and> (\<forall>y\<in>set xs. f x \<le> f y)"
      have "x # xs = [] @ x # xs \<and> f x < v \<and> (\<forall>y\<in>set []. f x < f y) \<and> (\<forall>z\<in>set xs. f x \<le> f z)
          \<and> search_loop score (x # xs) (b, Some v) = Inr (x, Some (f x))"
        using True k step by simp
      then show ?thesis by blast
    next
      assume "\<exists>ys c zs. xs = ys @ c # zs \<and> f c < f x \<and> (\<forall>y\<in>set ys. f c < f y) \<and> (\<forall>z\<in>set zs. f c \<le> f z)
          \<and> search_loop score xs (x, Some (f x)) = Inr (c, Some (f c))"
      then obtain ys c zs where k: "xs = ys @ c # zs" "f c < f x" "\<forall>y\<in>set ys. f c < f y"
        "\<forall>z\<in>set zs. f c \<le> f z" "search_loop score xs (x, Some (f x)) = Inr (c, Some (f c))"
        by blast
      have "x # xs = (x # ys) @ c # zs \<and> f c < v \<and> (\<forall>y\<in>set (x # ys). f c < f y) \<and> (\<forall>z\<in>set zs. f c \<le> f z)
          \<and> search_loop score (x # xs) (b, Some v) = Inr (c, Some (f c))"
        using True k step by simp
      then show ?thesis by blast
    qed
  next
    case False
    then have step: "search_loop score (x # xs) (b, Some v) = search_loop score xs (b, Some v)"
      by (simp add: sx)
    from Cons.IH [OF rest, of b v] show ?thesis
    proof
      assume "search_loop score xs (b, Some v) = Inr (b, Some v) \<and> (\<forall>y\<in>set xs. v \<le> f y)"
      then show ?thesis using False step by simp
    next
      assume "\<exists>ys c zs. xs = ys @ c # zs \<and> f c < v \<and> (\<forall>y\<in>set ys. f c < f y) \<and> (\<forall>z\<in>set zs. f c \<le> f z)
          \<and> search_loop score xs (b, Some v) = Inr (c, Some (f c))"
      then obtain ys c zs where k: "xs = ys @ c # zs" "f c < v" "\<forall>y\<in>set ys. f c < f y"
        "\<forall>z\<in>set zs. f c \<le> f z" "search_loop score xs (b, Some v) = Inr (c, Some (f c))"
        by blast
      have "x # xs = (x # ys) @ c # zs \<and> f c < v \<and> (\<forall>y\<in>set (x # ys). f c < f y) \<and> (\<forall>z\<in>set zs. f c \<le> f z)
          \<and> search_loop score (x # xs) (b, Some v) = Inr (c, Some (f c))"
        using False k step by simp
      then show ?thesis by blast
    qed
  qed
qed

lemma search_loop_none:
  assumes "\<forall>x\<in>set xs. score x = Inr (f x)" and "xs \<noteq> []"
  shows "\<exists>ys c zs. xs = ys @ c # zs \<and> (\<forall>y\<in>set ys. f c < f y) \<and> (\<forall>z\<in>set zs. f c \<le> f z)
          \<and> search_loop score xs (b, None) = Inr (c, Some (f c))"
proof -
  from assms(2) obtain x xs' where xs: "xs = x # xs'" by (cases xs) simp_all
  have sx: "score x = Inr (f x)" and rest: "\<forall>x\<in>set xs'. score x = Inr (f x)"
    using assms(1) xs by simp_all
  have step: "search_loop score xs (b, None) = search_loop score xs' (x, Some (f x))"
    by (simp add: xs sx)
  from search_loop_some [OF rest, of x "f x"] show ?thesis
  proof
    assume k: "search_loop score xs' (x, Some (f x)) = Inr (x, Some (f x)) \<and> (\<forall>y\<in>set xs'. f x \<le> f y)"
    have "xs = [] @ x # xs' \<and> (\<forall>y\<in>set []. f x < f y) \<and> (\<forall>z\<in>set xs'. f x \<le> f z)
          \<and> search_loop score xs (b, None) = Inr (x, Some (f x))"
      using k step xs by simp
    then show ?thesis by blast
  next
    assume "\<exists>ys c zs. xs' = ys @ c # zs \<and> f c < f x \<and> (\<forall>y\<in>set ys. f c < f y) \<and> (\<forall>z\<in>set zs. f c \<le> f z)
          \<and> search_loop score xs' (x, Some (f x)) = Inr (c, Some (f c))"
    then obtain ys c zs where k: "xs' = ys @ c # zs" "f c < f x" "\<forall>y\<in>set ys. f c < f y"
        "\<forall>z\<in>set zs. f c \<le> f z" "search_loop score xs' (x, Some (f x)) = Inr (c, Some (f c))"
      by blast
    have "xs = (x # ys) @ c # zs \<and> (\<forall>y\<in>set (x # ys). f c < f y) \<and> (\<forall>z\<in>set zs. f c \<le> f z)
          \<and> search_loop score xs (b, None) = Inr (c, Some (f c))"
      using k step xs by simp
    then show ?thesis by blast
  qed
qed

text \<open>
  The chosen position: the midline when there is no candidate or the least score is above
  the threshold, otherwise the first candidate of least score.
\<close>

lemma pick_best_cases:
  assumes sc: "\<forall>x\<in>set xs. score x = Inr (f x)" and sm: "score mid = Inr (f mid)"
  defines "t \<equiv> float_mul (float_of_int (f mid)) lit_0_95"
  shows "pick_best score mid xs = Inr mid \<and> (\<forall>x\<in>set xs. t < of_int (f x))
    \<or> (\<exists>ys c zs. xs = ys @ c # zs \<and> (\<forall>y\<in>set ys. f c < f y) \<and> (\<forall>z\<in>set zs. f c \<le> f z)
          \<and> of_int (f c) \<le> t \<and> pick_best score mid xs = Inr c)"
proof (cases "xs = []")
  case True
  then show ?thesis by (simp add: pick_best_def sm)
next
  case False
  from search_loop_none [OF sc False, of mid]
  obtain ys c zs where k: "xs = ys @ c # zs" "\<forall>y\<in>set ys. f c < f y" "\<forall>z\<in>set zs. f c \<le> f z"
    "search_loop score xs (mid, None) = Inr (c, Some (f c))"
    by blast
  have least: "\<forall>x\<in>set xs. f c \<le> f x" using k(1-3) by auto
  show ?thesis
  proof (cases "t < of_int (f c)")
    case True
    have "\<forall>x\<in>set xs. t < of_int (f x)"
    proof
      fix x assume "x \<in> set xs"
      then have "f c \<le> f x" using least by simp
      then have "(of_int (f c) :: real) \<le> of_int (f x)" by (simp only: of_int_le_iff)
      with True show "t < of_int (f x)" by linarith
    qed
    moreover have "pick_best score mid xs = Inr mid"
      using True by (simp add: pick_best_def k(4) sm t_def)
    ultimately show ?thesis by blast
  next
    case False
    then have "of_int (f c) \<le> t" by simp
    moreover have "pick_best score mid xs = Inr c"
      using False by (simp add: pick_best_def k(4) sm t_def)
    ultimately show ?thesis using k(1-3) by blast
  qed
qed

lemma lit_margins: "lit_0_08 \<le> lit_0_92" "0 \<le> lit_0_08" "lit_0_92 \<le> 1"
proof -
  show "lit_0_08 \<le> lit_0_92" unfolding lit_0_08_def lit_0_92_def by (rule fl_mono) simp
  show "0 \<le> lit_0_08" unfolding lit_0_08_def by (rule fl_nonneg) simp
  have "fl (92 / 100) \<le> fl 1" by (rule fl_mono) simp
  then show "lit_0_92 \<le> 1" by (simp add: lit_0_92_def)
qed

lemma margin_order:
  assumes "0 \<le> p"
  shows "0 \<le> margin_lo p" and "margin_lo p \<le> margin_hi p"
proof -
  have n: "0 \<le> float_of_int p" using assms by (rule float_of_int_nonneg)
  have "0 \<le> float_of_int p * lit_0_08" using n lit_margins(2) by simp
  then have "0 \<le> float_mul (float_of_int p) lit_0_08" unfolding float_mul_def by (rule fl_nonneg)
  then show "0 \<le> margin_lo p" by (simp add: margin_lo_def py_int_floor)
  have "float_of_int p * lit_0_08 \<le> float_of_int p * lit_0_92"
    using n lit_margins(1) by (rule mult_left_mono [rotated])
  then have "float_mul (float_of_int p) lit_0_08 \<le> float_mul (float_of_int p) lit_0_92"
    unfolding float_mul_def by (rule fl_mono)
  then show "margin_lo p \<le> margin_hi p" unfolding margin_lo_def margin_hi_def by (rule py_int_mono)
qed

lemma margin_hi_le:
  assumes "0 \<le> p" and "p < 2 ^ 31"
  shows "margin_hi p \<le> p"
proof -
  have px: "float_of_int p = of_int p" using assms by (intro float_of_int_exact) simp
  have "(0::real) \<le> of_int p" using assms by simp
  then have "of_int p * lit_0_92 \<le> (of_int p :: real)" using lit_margins(3)
    by (simp add: mult_left_le)
  then have "fl (of_int p * lit_0_92) \<le> of_int p" using assms by (intro fl_le_int) simp_all
  then have "py_int (fl (of_int p * lit_0_92)) \<le> py_int (of_int p)" by (rule py_int_mono)
  then show ?thesis by (simp add: margin_hi_def float_mul_def px)
qed

text \<open>Inside the locators the scorers do not raise.\<close>

lemma gutter_score_vertical_total:
  assumes "y0 \<le> y1"
  shows "gutter_score_vertical g xc bp y0 y1 = Inr (score_value (gutter_score_vertical g xc bp y0 y1))"
  using assms by (simp add: gutter_score_vertical_eq score_value_def crop_def)

lemma gutter_score_horizontal_total:
  assumes "x0 \<le> x1"
  shows "gutter_score_horizontal g yc bp x0 x1 = Inr (score_value (gutter_score_horizontal g yc bp x0 x1))"
  using assms by (simp add: gutter_score_horizontal_eq score_value_def crop_def band_hi_def band_lo_def)

lemma vscore_total:
  assumes "0 \<le> height gray"
  shows "gutter_score_vertical gray x (band_px_of (width gray) band)
           (margin_lo (height gray)) (margin_hi (height gray)) = Inr (vscore gray band x)"
  unfolding vscore_def using margin_order(2) [OF assms] by (rule gutter_score_vertical_total)

lemma hscore_total:
  assumes "0 \<le> width gray"
  shows "gutter_score_horizontal gray y (band_px_of (height gray) band)
           (margin_lo (width gray)) (margin_hi (width gray)) = Inr (hscore gray band y)"
  unfolding hscore_def using margin_order(2) [OF assms] by (rule gutter_score_horizontal_total)

text \<open>The analysis image exists, has positive dimensions and a scale of at least \<open>1\<close>.\<close>

lemma convert_simps [simp]:
  "width (convert f img) = width img" "height (convert f img) = height img"
  "pixel (convert f img) x y = f (pixel img x y)"
  by (simp_all add: convert_def)

lemma analysis_total:
  assumes "0 < width img" and "0 < height img"
  shows "\<exists>gray scale. analysis lib img = Inr (gray, scale) \<and> 1 \<le> scale
           \<and> 0 < width gray \<and> 0 < height gray \<and> width gray \<le> 900 \<and> height gray \<le> 900"
proof (cases "max (width img) (height img) \<le> 900")
  case True
  then have "downsample_for_analysis (bilinear lib) (convert (rgb_of lib) img) 900
      = Inr (convert (rgb_of lib) img, 1)"
    by (intro downsample_small) simp_all
  then show ?thesis using assms True by (simp add: analysis_def)
next
  case False
  define rgb where "rgb = convert (rgb_of lib) img"
  have "900 < max (width img) (height img)" using False by linarith
  then have big: "900 < max (width rgb) (height rgb)" by (simp add: rgb_def)
  define scale where "scale = fl (float_of_int (max (width rgb) (height rgb)) / float_of_int 900)"
  define new_w where "new_w = max 1 \<lfloor>fl (float_of_int (width rgb) / scale)\<rfloor>"
  define new_h where "new_h = max 1 \<lfloor>fl (float_of_int (height rgb) / scale)\<rfloor>"
  define small where "small = \<lparr>width = new_w, height = new_h, pixel = bilinear lib rgb new_w new_h\<rparr>"
  have s: "1 < scale"
    unfolding scale_def using big by (intro downsample_large(1)) simp_all
  have d: "downsample_for_analysis (bilinear lib) rgb 900 = Inr (small, scale)"
    unfolding small_def new_w_def new_h_def scale_def using big
    by (intro downsample_large(2)) simp_all
  have "new_w \<le> 900" "new_h \<le> 900"
    using big resampled_dim_le [of 900 "max (width rgb) (height rgb)" "width rgb"]
      resampled_dim_le [of 900 "max (width rgb) (height rgb)" "height rgb"]
    by (simp_all add: new_w_def new_h_def scale_def)
  then have "1 \<le> width small \<and> width small \<le> 900 \<and> 1 \<le> height small \<and> height small \<le> 900"
    by (simp add: small_def new_w_def new_h_def)
  then show ?thesis using d s by (simp add: analysis_def rgb_def [symmetric])
qed

text \<open>The threshold \<^verbatim>\<open>center_score * 0.95\<close> lies below a positive score of the centre.\<close>

lemma threshold_below_score:
  assumes "0 < s"
  shows "float_mul (float_of_int s) lit_0_95 < of_int s"
proof -
  define S where "S = float_of_int s"
  define L :: real where "L = 4278419646001971 / 4503599627370496"
  define P where "P = S * L"
  have s1: "(1::real) \<le> of_int s" using assms by simp
  have small: "(2::real) powi (- 1022) \<le> 1 / 2"
    using two_powi_mono [of "- 1022" "- 1"] by simp
  have "\<bar>fl (of_int s) - of_int s\<bar> \<le> of_int s / 2 ^ 53"
    using small s1 by (intro fl_rel_error) linarith
  then have Sup: "S \<le> of_int s + of_int s / 2 ^ 53" unfolding S_def float_of_int_def by linarith
  have S1: "1 \<le> S" unfolding S_def using assms by (intro float_of_int_ge_one) simp
  have Lpos: "0 < L" "1 / 2 \<le> L" by (simp_all add: L_def)
  have "1 * (1 / 2) \<le> S * L" using S1 Lpos by (intro mult_mono) simp_all
  then have Plow: "2 powi (- 1022) \<le> P" using small by (simp add: P_def)
  then have "\<bar>fl P - P\<bar> \<le> P / 2 ^ 53" by (rule fl_rel_error)
  then have "fl P \<le> P + P / 2 ^ 53" by linarith
  also have "\<dots> = P * (1 + 1 / 2 ^ 53)" by (simp add: algebra_simps)
  also have "\<dots> \<le> ((of_int s + of_int s / 2 ^ 53) * L) * (1 + 1 / 2 ^ 53)"
    unfolding P_def using Sup Lpos by (intro mult_right_mono) simp_all
  also have "\<dots> = of_int s * ((1 + 1 / 2 ^ 53) * L * (1 + 1 / 2 ^ 53))"
    by (simp add: algebra_simps)
  also have "\<dots> < of_int s * 1"
  proof (rule mult_strict_left_mono)
    show "(1 + 1 / 2 ^ 53) * L * (1 + 1 / 2 ^ 53) < 1" by (simp add: L_def)
    show "(0::real) < of_int s" using assms by simp
  qed
  finally show ?thesis by (simp add: float_mul_def P_def S_def L_def lit_0_95_value)
qed

lemma pick_best_rules:
  assumes sc: "\<forall>x\<in>set xs. score x = Inr (f x)" and sm: "score mid = Inr (f mid)"
  defines "t \<equiv> float_mul (float_of_int (f mid)) lit_0_95"
  shows "(\<forall>x\<in>set xs. t < of_int (f x)) \<longrightarrow> pick_best score mid xs = Inr mid"
    and "(\<exists>x\<in>set xs. of_int (f x) \<le> t) \<longrightarrow>
           (\<exists>ys c zs. xs = ys @ c # zs \<and> (\<forall>y\<in>set ys. f c < f y) \<and> (\<forall>z\<in>set zs. f c \<le> f z)
              \<and> pick_best score mid xs = Inr c)"
    and "(\<forall>x\<in>set xs. f x = f mid) \<and> 0 < f mid \<longrightarrow> pick_best score mid xs = Inr mid"
    and "\<exists>c\<in>set (mid # xs). pick_best score mid xs = Inr c"
proof -
  note C = pick_best_cases [OF sc sm, folded t_def]
  show A: "(\<forall>x\<in>set xs. t < of_int (f x)) \<longrightarrow> pick_best score mid xs = Inr mid"
  proof
    assume a: "\<forall>x\<in>set xs. t < of_int (f x)"
    from C show "pick_best score mid xs = Inr mid"
    proof
      assume "pick_best score mid xs = Inr mid \<and> (\<forall>x\<in>set xs. t < of_int (f x))"
      then show ?thesis by simp
    next
      assume "\<exists>ys c zs. xs = ys @ c # zs \<and> (\<forall>y\<in>set ys. f c < f y) \<and> (\<forall>z\<in>set zs. f c \<le> f z)
          \<and> of_int (f c) \<le> t \<and> pick_best score mid xs = Inr c"
      then obtain ys c zs where "xs = ys @ c # zs" "of_int (f c) \<le> t" by blast
      then have "c \<in> set xs" "\<not> t < of_int (f c)" by simp_all
      with a show ?thesis by blast
    qed
  qed
  show "(\<exists>x\<in>set xs. of_int (f x) \<le> t) \<longrightarrow>
           (\<exists>ys c zs. xs = ys @ c # zs \<and> (\<forall>y\<in>set ys. f c < f y) \<and> (\<forall>z\<in>set zs. f c \<le> f z)
              \<and> pick_best score mid xs = Inr c)"
  proof
    assume "\<exists>x\<in>set xs. of_int (f x) \<le> t"
    then obtain x where x: "x \<in> set xs" "\<not> t < of_int (f x)" by auto
    from C show "\<exists>ys c zs. xs = ys @ c # zs \<and> (\<forall>y\<in>set ys. f c < f y) \<and> (\<forall>z\<in>set zs. f c \<le> f z)
              \<and> pick_best score mid xs = Inr c"
    proof
      assume "pick_best score mid xs = Inr mid \<and> (\<forall>x\<in>set xs. t < of_int (f x))"
      with x show ?thesis by blast
    next
      assume "\<exists>ys c zs. xs = ys @ c # zs \<and> (\<forall>y\<in>set ys. f c < f y) \<and> (\<forall>z\<in>set zs. f c \<le> f z)
          \<and> of_int (f c) \<le> t \<and> pick_best score mid xs = Inr c"
      then show ?thesis by blast
    qed
  qed
  show "(\<forall>x\<in>set xs. f x = f mid) \<and> 0 < f mid \<longrightarrow> pick_best score mid xs = Inr mid"
  proof
    assume u: "(\<forall>x\<in>set xs. f x = f mid) \<and> 0 < f mid"
    then have "t < of_int (f mid)" unfolding t_def by (intro threshold_below_score) simp
    with u have "\<forall>x\<in>set xs. t < of_int (f x)" by simp
    with A show "pick_best score mid xs = Inr mid" by blast
  qed
  from C show "\<exists>c\<in>set (mid # xs). pick_best score mid xs = Inr c"
  proof
    assume "pick_best score mid xs = Inr mid \<and> (\<forall>x\<in>set xs. t < of_int (f x))"
    then show ?thesis by simp
  next
    assume "\<exists>ys c zs. xs = ys @ c # zs \<and> (\<forall>y\<in>set ys. f c < f y) \<and> (\<forall>z\<in>set zs. f c \<le> f z)
        \<and> of_int (f c) \<le> t \<and> pick_best score mid xs = Inr c"
    then obtain ys c zs where "xs = ys @ c # zs" "pick_best score mid xs = Inr c" by blast
    then show ?thesis by auto
  qed
qed

lemma find_split_vertical_chosen:
  assumes "analysis lib img = Inr (gray, scale)" and "chosen_vertical gray search band = Inr c"
  shows "find_split_vertical lib img search band = Inr (py_int (float_mul (float_of_int c) scale))"
  by (simp add: find_split_vertical_parts assms)

lemma find_split_horizontal_chosen:
  assumes "analysis lib img = Inr (gray, scale)" and "chosen_horizontal gray search band = Inr c"
  shows "find_split_horizontal lib img search band = Inr (py_int (float_mul (float_of_int c) scale))"
  by (simp add: find_split_horizontal_parts assms)

lemma analysis_dims:
  assumes "0 < width img" and "0 < height img" and "analysis lib img = Inr (gray, scale)"
  shows "0 < width gray" and "0 < height gray" and "1 \<le> scale"
  using analysis_total [OF assms(1,2), of lib] assms(3) by auto

text \<open>
  C1 (as amended).  Let the analysis image of a valid image be given, with its scale, and
  let the search and band fractions lie in \<open>(0, 1)\<close>.  The scorers return a score at every
  position.  If every strided candidate scores strictly more than the float product
  \<open>center_score * 0.95\<close>, where \<open>center_score\<close> is the score at \<open>mid = dimension div 2\<close>
  (in particular if there is no candidate), the locator selects the midline and returns it
  mapped by the scale.  If some candidate scores at most that product, the locator returns
  the first candidate of least score instead; a candidate that only equals the product is
  kept.  On an image where every candidate scores the same as the centre and that score is
  positive, the locator returns the midline mapped by the scale.  This holds for the vertical
  and for the horizontal locator.
\<close>

theorem center_bias_fallback:
  assumes "valid_image img" and "fraction search" and "fraction band"
    and "analysis lib img = Inr (gray, scale)"
  shows "(\<forall>x. gutter_score_vertical gray x (band_px_of (width gray) band)
              (margin_lo (height gray)) (margin_hi (height gray)) = Inr (vscore gray band x))
   \<and> (let xs = candidates (width gray) search; mid = width gray div 2;
          t = float_mul (float_of_int (vscore gray band mid)) lit_0_95
      in ((\<forall>x\<in>set xs. t < of_int (vscore gray band x))
            \<longrightarrow> find_split_vertical lib img search band
                  = Inr (py_int (float_mul (float_of_int mid) scale)))
       \<and> ((\<exists>x\<in>set xs. of_int (vscore gray band x) \<le> t)
            \<longrightarrow> (\<exists>ys c zs. xs = ys @ c # zs
                   \<and> (\<forall>y\<in>set ys. vscore gray band c < vscore gray band y)
                   \<and> (\<forall>z\<in>set zs. vscore gray band c \<le> vscore gray band z)
                   \<and> find_split_vertical lib img search band
                       = Inr (py_int (float_mul (float_of_int c) scale))))
       \<and> ((\<forall>x\<in>set xs. vscore gray band x = vscore gray band mid) \<and> 0 < vscore gray band mid
            \<longrightarrow> find_split_vertical lib img search band
                  = Inr (py_int (float_mul (float_of_int mid) scale))))
   \<and> (\<forall>y. gutter_score_horizontal gray y (band_px_of (height gray) band)
              (margin_lo (width gray)) (margin_hi (width gray)) = Inr (hscore gray band y))
   \<and> (let ys = candidates (height gray) search; mid = height gray div 2;
          t = float_mul (float_of_int (hscore gray band mid)) lit_0_95
      in ((\<forall>y\<in>set ys. t < of_int (hscore gray band y))
            \<longrightarrow> find_split_horizontal lib img search band
                  = Inr (py_int (float_mul (float_of_int mid) scale)))
       \<and> ((\<exists>y\<in>set ys. of_int (hscore gray band y) \<le> t)
            \<longrightarrow> (\<exists>us c vs. ys = us @ c # vs
                   \<and> (\<forall>u\<in>set us. hscore gray band c < hscore gray band u)
                   \<and> (\<forall>v\<in>set vs. hscore gray band c \<le> hscore gray band v)
                   \<and> find_split_horizontal lib img search band
                       = Inr (py_int (float_mul (float_of_int c) scale))))
       \<and> ((\<forall>y\<in>set ys. hscore gray band y = hscore gray band mid) \<and> 0 < hscore gray band mid
            \<longrightarrow> find_split_horizontal lib img search band
                  = Inr (py_int (float_mul (float_of_int mid) scale))))"
proof -
  note an = assms(4)
  have "0 < width img" and "0 < height img" using assms(1) by (simp_all add: valid_image_def)
  then have dims: "0 \<le> width gray" "0 \<le> height gray"
    using analysis_dims(1,2) [OF _ _ an] by simp_all
  note V = pick_best_rules(1-3) [where f = "vscore gray band"
      and score = "\<lambda>x. gutter_score_vertical gray x (band_px_of (width gray) band)
                     (margin_lo (height gray)) (margin_hi (height gray))"
      and xs = "candidates (width gray) search" and mid = "width gray div 2",
      folded chosen_vertical_def]
  note H = pick_best_rules(1-3) [where f = "hscore gray band"
      and score = "\<lambda>y. gutter_score_horizontal gray y (band_px_of (height gray) band)
                     (margin_lo (width gray)) (margin_hi (width gray))"
      and xs = "candidates (height gray) search" and mid = "height gray div 2",
      folded chosen_horizontal_def]
  have vt: "\<forall>x\<in>set (candidates (width gray) search).
      gutter_score_vertical gray x (band_px_of (width gray) band)
        (margin_lo (height gray)) (margin_hi (height gray)) = Inr (vscore gray band x)"
    and vm: "gutter_score_vertical gray (width gray div 2) (band_px_of (width gray) band)
        (margin_lo (height gray)) (margin_hi (height gray)) = Inr (vscore gray band (width gray div 2))"
    using dims(2) by (simp_all add: vscore_total)
  have ht: "\<forall>y\<in>set (candidates (height gray) search).
      gutter_score_horizontal gray y (band_px_of (height gray) band)
        (margin_lo (width gray)) (margin_hi (width gray)) = Inr (hscore gray band y)"
    and hm: "gutter_score_horizontal gray (height gray div 2) (band_px_of (height gray) band)
        (margin_lo (width gray)) (margin_hi (width gray)) = Inr (hscore gray band (height gray div 2))"
    using dims(1) by (simp_all add: hscore_total)
  show ?thesis
    unfolding Let_def
  proof (intro conjI impI allI)
    show "gutter_score_vertical gray x (band_px_of (width gray) band)
        (margin_lo (height gray)) (margin_hi (height gray)) = Inr (vscore gray band x)" for x
      using dims(2) by (rule vscore_total)
  next
    show "gutter_score_horizontal gray y (band_px_of (height gray) band)
        (margin_lo (width gray)) (margin_hi (width gray)) = Inr (hscore gray band y)" for y
      using dims(1) by (rule hscore_total)
  next
    assume "\<forall>x\<in>set (candidates (width gray) search).
        float_mul (float_of_int (vscore gray band (width gray div 2))) lit_0_95
        < of_int (vscore gray band x)"
    with V(1) [OF vt vm] show "find_split_vertical lib img search band
        = Inr (py_int (float_mul (float_of_int (width gray div 2)) scale))"
      using an by (simp add: find_split_vertical_chosen)
  next
    assume "\<exists>x\<in>set (candidates (width gray) search).
        of_int (vscore gray band x)
        \<le> float_mul (float_of_int (vscore gray band (width gray div 2))) lit_0_95"
    with V(2) [OF vt vm] obtain ys c zs where k: "candidates (width gray) search = ys @ c # zs"
      "\<forall>y\<in>set ys. vscore gray band c < vscore gray band y"
      "\<forall>z\<in>set zs. vscore gray band c \<le> vscore gray band z"
      "chosen_vertical gray search band = Inr c"
      by blast
    have "find_split_vertical lib img search band = Inr (py_int (float_mul (float_of_int c) scale))"
      using an k(4) by (rule find_split_vertical_chosen)
    with k(1-3) show "\<exists>ys c zs. candidates (width gray) search = ys @ c # zs
        \<and> (\<forall>y\<in>set ys. vscore gray band c < vscore gray band y)
        \<and> (\<forall>z\<in>set zs. vscore gray band c \<le> vscore gray band z)
        \<and> find_split_vertical lib img search band = Inr (py_int (float_mul (float_of_int c) scale))"
      by blast
  next
    assume "(\<forall>x\<in>set (candidates (width gray) search).
        vscore gray band x = vscore gray band (width gray div 2))
        \<and> 0 < vscore gray band (width gray div 2)"
    with V(3) [OF vt vm] show "find_split_vertical lib img search band
        = Inr (py_int (float_mul (float_of_int (width gray div 2)) scale))"
      using an by (simp add: find_split_vertical_chosen)
  next
    assume "\<forall>y\<in>set (candidates (height gray) search).
        float_mul (float_of_int (hscore gray band (height gray div 2))) lit_0_95
        < of_int (hscore gray band y)"
    with H(1) [OF ht hm] show "find_split_horizontal lib img search band
        = Inr (py_int (float_mul (float_of_int (height gray div 2)) scale))"
      using an by (simp add: find_split_horizontal_chosen)
  next
    assume "\<exists>y\<in>set (candidates (height gray) search).
        of_int (hscore gray band y)
        \<le> float_mul (float_of_int (hscore gray band (height gray div 2))) lit_0_95"
    with H(2) [OF ht hm] obtain us c vs where k: "candidates (height gray) search = us @ c # vs"
      "\<forall>u\<in>set us. hscore gray band c < hscore gray band u"
      "\<forall>v\<in>set vs. hscore gray band c \<le> hscore gray band v"
      "chosen_horizontal gray search band = Inr c"
      by blast
    have "find_split_horizontal lib img search band = Inr (py_int (float_mul (float_of_int c) scale))"
      using an k(4) by (rule find_split_horizontal_chosen)
    with k(1-3) show "\<exists>us c vs. candidates (height gray) search = us @ c # vs
        \<and> (\<forall>u\<in>set us. hscore gray band c < hscore gray band u)
        \<and> (\<forall>v\<in>set vs. hscore gray band c \<le> hscore gray band v)
        \<and> find_split_horizontal lib img search band = Inr (py_int (float_mul (float_of_int c) scale))"
      by blast
  next
    assume "(\<forall>y\<in>set (candidates (height gray) search).
        hscore gray band y = hscore gray band (height gray div 2))
        \<and> 0 < hscore gray band (height gray div 2)"
    with H(3) [OF ht hm] show "find_split_horizontal lib img search band
        = Inr (py_int (float_mul (float_of_int (height gray div 2)) scale))"
      using an by (simp add: find_split_horizontal_chosen)
  qed
qed

section \<open>Uniformly coloured images\<close>

lemma back_map_one: "\<bar>c\<bar> \<le> 2 ^ 53 \<Longrightarrow> py_int (float_mul (float_of_int c) 1) = c"
  by (simp add: float_mul_def float_of_int_exact fl_of_int)

lemma grey_lib_simps [simp]:
  "rgb_of grey_lib v = (v, v, v)" "luma grey_lib (r, g, b) = g"
  "bilinear grey_lib img new_w new_h = (\<lambda>x y. pixel img 0 0)"
  by (simp_all add: grey_lib_def)

lemma convert_solid: "convert f (solid w h v) = solid w h (f v)"
  by (simp add: convert_def solid_def)

lemma analysis_grey_small:
  assumes "max w h \<le> 900"
  shows "analysis grey_lib (solid w h v) = Inr (solid w h v, 1)"
proof -
  have "downsample_for_analysis (bilinear grey_lib) (solid w h (v, v, v)) 900
      = Inr (solid w h (v, v, v), 1)"
    using assms by (intro downsample_small) simp_all
  then show ?thesis by (simp add: analysis_def convert_solid)
qed

lemma band_px_ge: "2 \<le> band_px_of d band"
  by (simp add: band_px_of_def)

lemma band_nondegenerate:
  assumes "0 \<le> x" and "x < d" and "2 \<le> bp"
  shows "band_lo x bp < band_hi d x bp"
proof -
  have "0 \<le> bp div 2" using assms(3) by simp
  then have "band_lo x bp \<le> x" using assms(1) by (simp add: band_lo_def)
  then show ?thesis using assms by (simp add: band_hi_def)
qed

lemma vscore_solid:
  assumes "0 \<le> x" and "x < w" and "0 \<le> h" and "h < 2 ^ 31"
  shows "vscore (solid w h v) band x
    = (band_hi w x (band_px_of w band) - band_lo x (band_px_of w band))
        * (margin_hi h - margin_lo h) * (255 - int (unat v))"
  unfolding vscore_def solid_simps
  using band_nondegenerate [OF assms(1,2) band_px_ge [of w band]]
    margin_order [OF assms(3)] margin_hi_le [OF assms(3,4)]
  by (simp add: gutter_score_vertical_solid score_value_def)

lemma hscore_solid:
  assumes "0 \<le> y" and "y < h" and "0 \<le> w" and "w < 2 ^ 31"
  shows "hscore (solid w h v) band y
    = (margin_hi w - margin_lo w)
        * (band_hi h y (band_px_of h band) - band_lo y (band_px_of h band)) * (255 - int (unat v))"
  unfolding hscore_def solid_simps
  using band_nondegenerate [OF assms(1,2) band_px_ge [of h band]]
    margin_order [OF assms(3)] margin_hi_le [OF assms(3,4)]
  by (simp add: gutter_score_horizontal_solid score_value_def)

lemma hd_candidates: "candidates d s \<noteq> [] \<Longrightarrow> hd (candidates d s) = search_start d s"
  by (simp add: candidates_eq hd_map)

text \<open>On a white image every position scores \<open>0\<close>, and the loop keeps the first one.\<close>

lemma pick_best_all_zero:
  assumes sc: "\<forall>x\<in>set xs. score x = Inr 0" and sm: "score mid = Inr 0" and ne: "xs \<noteq> []"
  shows "pick_best score mid xs = Inr (hd xs)"
proof -
  have t: "float_mul (float_of_int 0) lit_0_95 = 0" by (simp add: float_mul_def float_of_int_def)
  from pick_best_cases [of xs score "\<lambda>x. 0" mid] sc sm
  have "pick_best score mid xs = Inr mid \<and> (\<forall>x\<in>set xs. float_mul (float_of_int 0) lit_0_95 < of_int 0)
    \<or> (\<exists>ys c zs. xs = ys @ c # zs \<and> (\<forall>y\<in>set ys. (0::int) < 0) \<and> pick_best score mid xs = Inr c)"
    by auto
  then show ?thesis
  proof
    assume "pick_best score mid xs = Inr mid \<and> (\<forall>x\<in>set xs. float_mul (float_of_int 0) lit_0_95 < of_int 0)"
    then show ?thesis using ne by (simp add: t)
  next
    assume "\<exists>ys c zs. xs = ys @ c # zs \<and> (\<forall>y\<in>set ys. (0::int) < 0) \<and> pick_best score mid xs = Inr c"
    then obtain ys c zs where k: "xs = ys @ c # zs" "\<forall>y\<in>set ys. (0::int) < 0"
      "pick_best score mid xs = Inr c" by blast
    from k(2) have "ys = []" by (cases ys) auto
    then show ?thesis using k by simp
  qed
qed

lemma chosen_vertical_white:
  assumes "0 < w" and "0 \<le> h" and "h < 2 ^ 31" and "candidates w s \<noteq> []"
  shows "chosen_vertical (solid w h 255) s b = Inr (search_start w s)"
proof -
  let ?g = "solid w h (255 :: 8 word)"
  have z: "vscore ?g b x = 0" if "0 \<le> x" "x < w" for x
    using that assms(2,3) by (simp add: vscore_solid)
  have tot: "gutter_score_vertical ?g x (band_px_of w b) (margin_lo h) (margin_hi h)
      = Inr (vscore ?g b x)" for x
    using vscore_total [of ?g x b] assms(2) by simp
  have "\<forall>x\<in>set (candidates w s).
      gutter_score_vertical ?g x (band_px_of w b) (margin_lo h) (margin_hi h) = Inr 0"
  proof
    fix x assume x: "x \<in> set (candidates w s)"
    have "1 \<le> x" "x \<le> w - 2"
      using candidates_range [OF x] search_window_bounds [of w s] by linarith+
    then show "gutter_score_vertical ?g x (band_px_of w b) (margin_lo h) (margin_hi h) = Inr 0"
      by (simp add: tot z)
  qed
  moreover have "gutter_score_vertical ?g (w div 2) (band_px_of w b) (margin_lo h) (margin_hi h) = Inr 0"
    using assms(1) by (simp add: tot z pos_imp_zdiv_nonneg_iff)
  ultimately have "pick_best (\<lambda>x. gutter_score_vertical ?g x (band_px_of w b) (margin_lo h) (margin_hi h))
      (w div 2) (candidates w s) = Inr (hd (candidates w s))"
    using assms(4) by (rule pick_best_all_zero)
  then show ?thesis by (simp add: chosen_vertical_def hd_candidates [OF assms(4)])
qed

lemma chosen_horizontal_white:
  assumes "0 < h" and "0 \<le> w" and "w < 2 ^ 31" and "candidates h s \<noteq> []"
  shows "chosen_horizontal (solid w h 255) s b = Inr (search_start h s)"
proof -
  let ?g = "solid w h (255 :: 8 word)"
  have z: "hscore ?g b y = 0" if "0 \<le> y" "y < h" for y
    using that assms(2,3) by (simp add: hscore_solid)
  have tot: "gutter_score_horizontal ?g y (band_px_of h b) (margin_lo w) (margin_hi w)
      = Inr (hscore ?g b y)" for y
    using hscore_total [of ?g y b] assms(2) by simp
  have "\<forall>y\<in>set (candidates h s).
      gutter_score_horizontal ?g y (band_px_of h b) (margin_lo w) (margin_hi w) = Inr 0"
  proof
    fix y assume y: "y \<in> set (candidates h s)"
    have "1 \<le> y" "y \<le> h - 2"
      using candidates_range [OF y] search_window_bounds [of h s] by linarith+
    then show "gutter_score_horizontal ?g y (band_px_of h b) (margin_lo w) (margin_hi w) = Inr 0"
      by (simp add: tot z)
  qed
  moreover have "gutter_score_horizontal ?g (h div 2) (band_px_of h b) (margin_lo w) (margin_hi w) = Inr 0"
    using assms(1) by (simp add: tot z pos_imp_zdiv_nonneg_iff)
  ultimately have "pick_best (\<lambda>y. gutter_score_horizontal ?g y (band_px_of h b) (margin_lo w) (margin_hi w))
      (h div 2) (candidates h s) = Inr (hd (candidates h s))"
    using assms(4) by (rule pick_best_all_zero)
  then show ?thesis by (simp add: chosen_horizontal_def hd_candidates [OF assms(4)])
qed

lemma eval_100:
  "candidates 100 default_search = [44, 45, 46, 47, 48, 49, 50, 51, 52, 53, 54, 55, 56]"
  "search_start 100 default_search = 44"
  by code_simp+

lemma eval_100_band:
  "band_px_of 100 default_band = 2" "margin_lo 100 = 8" "margin_hi 100 = 92"
  by code_simp+

lemma vscore_black_100:
  assumes "1 \<le> x" and "x \<le> 98"
  shows "vscore (solid 100 100 0) default_band x = 42840"
  using assms by (simp add: vscore_solid eval_100_band band_lo_def band_hi_def)

lemma hscore_black_100:
  assumes "1 \<le> y" and "y \<le> 98"
  shows "hscore (solid 100 100 0) default_band y = 42840"
  using assms by (simp add: hscore_solid eval_100_band band_lo_def band_hi_def)

text \<open>
  The theorem at a black 100 by 100 image with the default fractions: the thirteen candidates
  \<open>44, \<dots>, 56\<close> and the centre \<open>50\<close> all score \<open>42840\<close>, the loop ends with the first
  candidate \<open>44\<close>, whose score is above \<open>center_score * 0.95\<close>, and the fallback replaces it
  by the midline: both locators return \<open>50\<close>.
\<close>

theorem center_bias_fallback_witness:
  "map (vscore (solid 100 100 0) default_band) (candidates 100 default_search)
     = [42840, 42840, 42840, 42840, 42840, 42840, 42840, 42840, 42840, 42840, 42840, 42840, 42840]
   \<and> vscore (solid 100 100 0) default_band (100 div 2) = 42840
   \<and> find_split_vertical grey_lib (solid 100 100 0) default_search default_band = Inr 50
   \<and> find_split_horizontal grey_lib (solid 100 100 0) default_search default_band = Inr 50"
  using center_bias_fallback [where img = "solid 100 100 0" and lib = grey_lib
      and gray = "solid 100 100 0" and scale = 1 and search = default_search and band = default_band]
  by (simp add: analysis_grey_small eval_100 vscore_black_100 hscore_black_100 back_map_one Let_def
      valid_image_def default_fractions)

text \<open>
  A white 100 by 100 image with the default fractions: the thirteen candidates \<open>44, \<dots>, 56\<close>
  and the centre \<open>50\<close> all score \<open>0\<close>, no candidate is strictly below
  \<open>center_score * 0.95 = 0\<close>, and the locator returns the first candidate \<open>44\<close>, not the
  midline \<open>50\<close>.
\<close>

theorem white_page_counterexample:
  "analysis grey_lib (solid 100 100 255) = Inr (solid 100 100 255, 1)
   \<and> map (vscore (solid 100 100 255) default_band) (candidates 100 default_search) = [0, 0, 0, 0, 0, 0, 0, 0, 0, 0, 0, 0, 0]
   \<and> vscore (solid 100 100 255) default_band (100 div 2) = 0
   \<and> py_int (float_mul (float_of_int (100 div 2)) 1) = 50
   \<and> find_split_vertical grey_lib (solid 100 100 255) default_search default_band = Inr 44"
proof -
  have a: "analysis grey_lib (solid 100 100 255) = Inr (solid 100 100 255, 1)"
    by (rule analysis_grey_small) simp
  have c: "chosen_vertical (solid 100 100 255) default_search default_band = Inr 44"
    using chosen_vertical_white [of 100 100 default_search default_band]
    by (simp add: eval_100)
  have f: "find_split_vertical grey_lib (solid 100 100 255) default_search default_band = Inr 44"
    using find_split_vertical_chosen [OF a c] by (simp add: back_map_one)
  have m: "map (vscore (solid 100 100 255) default_band) (candidates 100 default_search) = [0, 0, 0, 0, 0, 0, 0, 0, 0, 0, 0, 0, 0]"
    unfolding eval_100 by (simp add: vscore_solid)
  have v: "vscore (solid 100 100 255) default_band (100 div 2) = 0"
    by (simp add: vscore_solid)
  show ?thesis using a f m v by (simp add: back_map_one)
qed

lemma py_int_nonneg: "0 \<le> x \<Longrightarrow> 0 \<le> py_int x"
  by (simp add: py_int_def)

lemma float_mul_nonneg: "0 \<le> x \<Longrightarrow> 0 \<le> y \<Longrightarrow> 0 \<le> float_mul x y"
  by (simp add: float_mul_def fl_nonneg)

lemma chosen_position_bounds:
  assumes "0 < d" and "c \<in> set (d div 2 # candidates d s)"
  shows "0 \<le> c" and "c \<le> d"
proof -
  have "0 \<le> c \<and> c \<le> d"
  proof (cases "c = d div 2")
    case True
    have "d div 2 * 2 \<le> d" by (rule int_div_mult_le) simp
    moreover have "0 \<le> d div 2" using assms(1) by (simp add: pos_imp_zdiv_nonneg_iff)
    ultimately show ?thesis using True by linarith
  next
    case False
    then have "c \<in> set (candidates d s)" using assms(2) by simp
    then show ?thesis
      using candidates_range [of c d s] search_window_bounds [of d s] by linarith
  qed
  then show "0 \<le> c" and "c \<le> d" by simp_all
qed

lemma chosen_vertical_in:
  assumes "0 \<le> height gray" and "chosen_vertical gray search band = Inr c"
  shows "c \<in> set (width gray div 2 # candidates (width gray) search)"
  using pick_best_rules(4) [where f = "vscore gray band"
      and score = "\<lambda>x. gutter_score_vertical gray x (band_px_of (width gray) band)
                     (margin_lo (height gray)) (margin_hi (height gray))"
      and xs = "candidates (width gray) search" and mid = "width gray div 2",
      folded chosen_vertical_def] assms
  by (auto simp: vscore_total)

lemma chosen_horizontal_in:
  assumes "0 \<le> width gray" and "chosen_horizontal gray search band = Inr c"
  shows "c \<in> set (height gray div 2 # candidates (height gray) search)"
  using pick_best_rules(4) [where f = "hscore gray band"
      and score = "\<lambda>y. gutter_score_horizontal gray y (band_px_of (height gray) band)
                     (margin_lo (width gray)) (margin_hi (width gray))"
      and xs = "candidates (height gray) search" and mid = "height gray div 2",
      folded chosen_horizontal_def] assms
  by (auto simp: hscore_total)

lemma analysis_bounds:
  assumes "valid_image img" and "analysis lib img = Inr (gray, scale)"
  shows "0 < width gray" and "width gray \<le> 900" and "0 < height gray" and "height gray \<le> 900"
    and "1 \<le> scale"
proof -
  have "0 < width img" and "0 < height img" using assms(1) by (simp_all add: valid_image_def)
  from analysis_total [OF this, of lib] assms(2)
  show "0 < width gray" and "width gray \<le> 900" and "0 < height gray" and "height gray \<le> 900"
    and "1 \<le> scale" by auto
qed

lemma back_map_floor:
  assumes "0 \<le> c" and "c \<le> 900" and "1 \<le> scale"
  shows "py_int (float_mul (float_of_int c) scale) = \<lfloor>fl (of_int c * scale)\<rfloor>"
proof -
  have cx: "float_of_int c = of_int c" using assms by (intro float_of_int_exact) simp
  have "0 \<le> fl (of_int c * scale)" using assms by (intro fl_nonneg) simp
  then show ?thesis by (simp add: float_mul_def cx py_int_floor)
qed

text \<open>
  C6 (as amended).  For every analysis-space coordinate \<open>c\<close> the locator chooses and every
  scale \<open>s\<close> the downsampler returns (on a valid image, with fractions in \<open>(0, 1)\<close>), the
  locator returns \<^verbatim>\<open>int(c * s)\<close>: the float product truncated towards zero, which is the
  product rounded down, as \<open>c\<close> is not negative and \<open>s\<close> is at least \<open>1\<close>; it is not the
  product rounded to the nearest integer.  Where the image was not downsampled (\<open>s = 1\<close>) the
  result is \<open>c\<close> itself.
\<close>

theorem back_mapping_truncates:
  "(valid_image img \<and> fraction search \<and> fraction band
      \<and> analysis lib img = Inr (gray, scale) \<and> chosen_vertical gray search band = Inr c \<longrightarrow>
      0 \<le> c \<and> 1 \<le> scale
      \<and> find_split_vertical lib img search band = Inr (py_int (float_mul (float_of_int c) scale))
      \<and> find_split_vertical lib img search band = Inr \<lfloor>fl (of_int c * scale)\<rfloor>
      \<and> (scale = 1 \<longrightarrow> find_split_vertical lib img search band = Inr c))
   \<and> (valid_image img \<and> fraction search \<and> fraction band
      \<and> analysis lib img = Inr (gray, scale) \<and> chosen_horizontal gray search band = Inr c \<longrightarrow>
      0 \<le> c \<and> 1 \<le> scale
      \<and> find_split_horizontal lib img search band = Inr (py_int (float_mul (float_of_int c) scale))
      \<and> find_split_horizontal lib img search band = Inr \<lfloor>fl (of_int c * scale)\<rfloor>
      \<and> (scale = 1 \<longrightarrow> find_split_horizontal lib img search band = Inr c))"
proof (intro conjI impI)
  assume a: "valid_image img \<and> fraction search \<and> fraction band
      \<and> analysis lib img = Inr (gray, scale) \<and> chosen_vertical gray search band = Inr c"
  then have vi: "valid_image img" and an: "analysis lib img = Inr (gray, scale)"
    and ch: "chosen_vertical gray search band = Inr c"
    by simp_all
  note b = analysis_bounds [OF vi an]
  have "c \<in> set (width gray div 2 # candidates (width gray) search)"
    using b(3) ch by (intro chosen_vertical_in [where band = band]) simp_all
  then have c0: "0 \<le> c" and c9: "c \<le> 900"
    using chosen_position_bounds [OF b(1), of c search] b(2) by simp_all
  show "0 \<le> c" by (rule c0)
  show "1 \<le> scale" by (rule b(5))
  show v: "find_split_vertical lib img search band = Inr (py_int (float_mul (float_of_int c) scale))"
    using an ch by (rule find_split_vertical_chosen)
  show "find_split_vertical lib img search band = Inr \<lfloor>fl (of_int c * scale)\<rfloor>"
    using c0 c9 b(5) by (simp add: v back_map_floor)
  show "find_split_vertical lib img search band = Inr c" if "scale = 1"
    using that c0 c9 by (simp add: v back_map_one)
next
  assume a: "valid_image img \<and> fraction search \<and> fraction band
      \<and> analysis lib img = Inr (gray, scale) \<and> chosen_horizontal gray search band = Inr c"
  then have vi: "valid_image img" and an: "analysis lib img = Inr (gray, scale)"
    and ch: "chosen_horizontal gray search band = Inr c"
    by simp_all
  note b = analysis_bounds [OF vi an]
  have "c \<in> set (height gray div 2 # candidates (height gray) search)"
    using b(1) ch by (intro chosen_horizontal_in [where band = band]) simp_all
  then have c0: "0 \<le> c" and c9: "c \<le> 900"
    using chosen_position_bounds [OF b(3), of c search] b(4) by simp_all
  show "0 \<le> c" by (rule c0)
  show "1 \<le> scale" by (rule b(5))
  show h: "find_split_horizontal lib img search band = Inr (py_int (float_mul (float_of_int c) scale))"
    using an ch by (rule find_split_horizontal_chosen)
  show "find_split_horizontal lib img search band = Inr \<lfloor>fl (of_int c * scale)\<rfloor>"
    using c0 c9 b(5) by (simp add: h back_map_floor)
  show "find_split_horizontal lib img search band = Inr c" if "scale = 1"
    using that c0 c9 by (simp add: h back_map_one)
qed

lemma eval_1002:
  "fl (float_of_int 1002 / float_of_int 900) = 313375474071197 / 281474976710656"
  "\<lfloor>fl (float_of_int 1002 / fl (float_of_int 1002 / float_of_int 900))\<rfloor> = 900"
  "\<lfloor>fl (float_of_int 100 / fl (float_of_int 1002 / float_of_int 900))\<rfloor> = 89"
  "py_int (float_mul (float_of_int 396) (313375474071197 / 281474976710656)) = 440"
  "round (float_mul (float_of_int 396) (313375474071197 / 281474976710656)) = 441"
  by code_simp+

lemma eval_900:
  "search_start 900 default_search = 396"
  "length (candidates 900 default_search) = 109"
  by code_simp+

lemma analysis_grey_1002:
  "analysis grey_lib (solid 1002 100 255) = Inr (solid 900 89 255, 313375474071197 / 281474976710656)"
proof -
  have "downsample_for_analysis (bilinear grey_lib) (solid 1002 100 (255, 255, 255)) 900
      = Inr (\<lparr>width = max 1 \<lfloor>fl (float_of_int 1002 / fl (float_of_int 1002 / float_of_int 900))\<rfloor>,
               height = max 1 \<lfloor>fl (float_of_int 100 / fl (float_of_int 1002 / float_of_int 900))\<rfloor>,
               pixel = (\<lambda>x y. (255, 255, 255))\<rparr>,
             fl (float_of_int 1002 / float_of_int 900))"
    using downsample_large(2) [of 900 "solid 1002 100 (255, 255, 255)" "bilinear grey_lib"]
    by simp
  then have "downsample_for_analysis (bilinear grey_lib) (solid 1002 100 (255, 255, 255)) 900
      = Inr (solid 900 89 (255, 255, 255), fl (float_of_int 1002 / float_of_int 900))"
    by (simp only: eval_1002(2,3)) (simp add: solid_def)
  then have "downsample_for_analysis (bilinear grey_lib) (solid 1002 100 (255, 255, 255)) 900
      = Inr (solid 900 89 (255, 255, 255), 313375474071197 / 281474976710656)"
    by (simp only: eval_1002(1))
  then show ?thesis by (simp add: analysis_def convert_solid)
qed

lemma chosen_white_900:
  "chosen_vertical (solid 900 89 255) default_search default_band = Inr 396"
proof -
  have "candidates 900 default_search \<noteq> []" using eval_900(2) by auto
  then show ?thesis
    using chosen_vertical_white [of 900 89 default_search default_band]
    by (simp add: eval_900)
qed

text \<open>
  The theorem at a white 1002 by 100 image (analysis image 900 by 89, chosen position 396)
  and at a white 100 by 100 image, which is not downsampled.
\<close>

theorem back_mapping_truncates_witness:
  "find_split_vertical grey_lib (solid 1002 100 255) default_search default_band = Inr 440
   \<and> find_split_horizontal grey_lib (solid 100 100 255) default_search default_band = Inr 44"
proof -
  have h: "chosen_horizontal (solid 100 100 255) default_search default_band = Inr 44"
    using chosen_horizontal_white [of 100 100 default_search default_band]
    by (simp add: eval_100)
  show ?thesis
    using back_mapping_truncates [where lib = grey_lib and img = "solid 1002 100 255"
        and gray = "solid 900 89 255" and scale = "313375474071197 / 281474976710656"
        and search = default_search and band = default_band and c = 396]
      back_mapping_truncates [where lib = grey_lib and img = "solid 100 100 255"
        and gray = "solid 100 100 255" and scale = 1
        and search = default_search and band = default_band and c = 44]
    by (simp add: analysis_grey_1002 chosen_white_900 eval_1002 analysis_grey_small h back_map_one
        valid_image_def default_fractions)
qed

text \<open>
  A white 1002 by 100 image with the default fractions: the scale is the float
  \<open>1002 / 900\<close>, the chosen position is \<open>396\<close>, the product is about \<open>440.88\<close>, which rounds
  to \<open>441\<close>, and the locator returns \<open>440\<close>.
\<close>

theorem truncation_counterexample:
  "analysis grey_lib (solid 1002 100 255) = Inr (solid 900 89 255, 313375474071197 / 281474976710656)
   \<and> chosen_vertical (solid 900 89 255) default_search default_band = Inr 396
   \<and> round (float_mul (float_of_int 396) (313375474071197 / 281474976710656)) = 441
   \<and> find_split_vertical grey_lib (solid 1002 100 255) default_search default_band = Inr 440"
  using find_split_vertical_chosen [OF analysis_grey_1002 chosen_white_900]
  by (simp add: analysis_grey_1002 chosen_white_900 eval_1002)

text \<open>
  C9.  For every valid image (positive dimensions below \<open>2 ^ 31\<close>) and all search and band
  fractions in \<open>(0, 1)\<close>, neither locator raises: the analysis image exists, a position is
  chosen, which is the midline or one of the strided candidates of the search range, and the
  locator returns that position mapped by the scale, a non-negative integer.  An empty
  search range, as on an image one or two pixels wide, gives the midline.
\<close>

theorem locator_total:
  "valid_image img \<and> fraction search \<and> fraction band
   \<longrightarrow> (\<exists>gray scale.
          analysis lib img = Inr (gray, scale)
          \<and> (\<exists>c\<in>set (width gray div 2 # candidates (width gray) search).
                chosen_vertical gray search band = Inr c
                \<and> find_split_vertical lib img search band = Inr (py_int (float_mul (float_of_int c) scale))
                \<and> 0 \<le> py_int (float_mul (float_of_int c) scale))
          \<and> (\<exists>c\<in>set (height gray div 2 # candidates (height gray) search).
                chosen_horizontal gray search band = Inr c
                \<and> find_split_horizontal lib img search band = Inr (py_int (float_mul (float_of_int c) scale))
                \<and> 0 \<le> py_int (float_mul (float_of_int c) scale)))"
proof
  assume a: "valid_image img \<and> fraction search \<and> fraction band"
  then have "0 < width img" and "0 < height img" by (simp_all add: valid_image_def)
  then obtain gray scale where an: "analysis lib img = Inr (gray, scale)" and sc: "1 \<le> scale"
    and w: "0 < width gray" and h: "0 < height gray"
    using analysis_total [of img lib] by auto
  have nonneg: "0 \<le> py_int (float_mul (float_of_int c) scale)" if "0 \<le> c" for c
    using that sc by (intro py_int_nonneg float_mul_nonneg float_of_int_nonneg) simp_all
  have cpos: "0 \<le> c" if "c \<in> set (d div 2 # candidates d search)" "0 < d" for c d
  proof (cases "c = d div 2")
    case True
    then show ?thesis using that(2) by (simp add: pos_imp_zdiv_nonneg_iff)
  next
    case False
    then have "c \<in> set (candidates d search)" using that(1) by simp
    then show ?thesis using candidates_range(1) [of c d search] search_window_bounds(1) [of d search]
      by linarith
  qed
  obtain cv where cv: "cv \<in> set (width gray div 2 # candidates (width gray) search)"
    "chosen_vertical gray search band = Inr cv"
    using pick_best_rules(4) [where f = "vscore gray band"
      and score = "\<lambda>x. gutter_score_vertical gray x (band_px_of (width gray) band)
                     (margin_lo (height gray)) (margin_hi (height gray))"
      and xs = "candidates (width gray) search" and mid = "width gray div 2",
      folded chosen_vertical_def] h
    by (auto simp: vscore_total)
  obtain ch where ch: "ch \<in> set (height gray div 2 # candidates (height gray) search)"
    "chosen_horizontal gray search band = Inr ch"
    using pick_best_rules(4) [where f = "hscore gray band"
      and score = "\<lambda>y. gutter_score_horizontal gray y (band_px_of (height gray) band)
                     (margin_lo (width gray)) (margin_hi (width gray))"
      and xs = "candidates (height gray) search" and mid = "height gray div 2",
      folded chosen_horizontal_def] w
    by (auto simp: hscore_total)
  have "find_split_vertical lib img search band = Inr (py_int (float_mul (float_of_int cv) scale))"
    using an cv(2) by (rule find_split_vertical_chosen)
  moreover have "find_split_horizontal lib img search band = Inr (py_int (float_mul (float_of_int ch) scale))"
    using an ch(2) by (rule find_split_horizontal_chosen)
  moreover have "0 \<le> py_int (float_mul (float_of_int cv) scale)"
    using cpos [OF cv(1) w] by (rule nonneg)
  moreover have "0 \<le> py_int (float_mul (float_of_int ch) scale)"
    using cpos [OF ch(1) h] by (rule nonneg)
  ultimately show "\<exists>gray scale.
          analysis lib img = Inr (gray, scale)
          \<and> (\<exists>c\<in>set (width gray div 2 # candidates (width gray) search).
                chosen_vertical gray search band = Inr c
                \<and> find_split_vertical lib img search band = Inr (py_int (float_mul (float_of_int c) scale))
                \<and> 0 \<le> py_int (float_mul (float_of_int c) scale))
          \<and> (\<exists>c\<in>set (height gray div 2 # candidates (height gray) search).
                chosen_horizontal gray search band = Inr c
                \<and> find_split_horizontal lib img search band = Inr (py_int (float_mul (float_of_int c) scale))
                \<and> 0 \<le> py_int (float_mul (float_of_int c) scale))"
    using an cv ch by blast
qed

lemma eval_1: "candidates 1 default_search = []"
  by code_simp

text \<open>The theorem at a 1 by 1 image, whose search range is empty: both locators return \<open>0\<close>.\<close>

theorem locator_total_witness:
  "find_split_vertical grey_lib (solid 1 1 0) default_search default_band = Inr 0
   \<and> find_split_horizontal grey_lib (solid 1 1 0) default_search default_band = Inr 0"
  using locator_total [where img = "solid 1 1 0" and search = default_search
      and band = default_band and lib = grey_lib]
  by (simp add: eval_1 analysis_grey_small back_map_one valid_image_def default_fractions)

end
